theory Spec2Isabelle
  imports Complex_Main "HOL-Library.Log_Nat" "HOL-Library.AList"
begin

section \<open>Python floats: IEEE 754 binary64 with round-to-nearest-even\<close>

text \<open>
  \<^verbatim>\<open>calculator.py\<close> computes with Python \<^verbatim>\<open>float\<close>s, which are IEEE 754 binary64 values.
  A finite double is modelled by the rational number it denotes; the two infinities and
  NaN are separate constructors. The sign of a zero is not modelled: \<^verbatim>\<open>-0.0 == 0.0\<close> in
  Python, no comparison of the source tells them apart, and a division by either raises.
  Every arithmetic operation computes the exact rational result and rounds it once with
  \<open>rnd\<close>, as IEEE 754 prescribes.
\<close>

datatype double = Fin rat | PInf | NInf | NaN

datatype py_error = ZeroDivisionError

text \<open>Rounding a rational to the nearest integer, ties to the even one.\<close>

definition round_even :: "rat \<Rightarrow> int" where
  "round_even y =
     (let f = \<lfloor>y\<rfloor>; d = y - of_int f
      in if d < 1 / 2 then f
         else if 1 / 2 < d then f + 1
         else if even f then f else f + 1)"

text \<open>
  The binary exponent of a non-zero rational: \<open>2 powi ilog2 x \<le> \<bar>x\<bar> < 2 powi (ilog2 x + 1)\<close>,
  computed from the bit lengths of numerator and denominator.
\<close>

definition ilog2 :: "rat \<Rightarrow> int" where
  "ilog2 x =
     (let (p, q) = quotient_of \<bar>x\<bar>; d = bitlen p - bitlen q
      in if 2 powi d \<le> \<bar>x\<bar> then d else d - 1)"

text \<open>
  The exponent of the unit in the last place at \<open>x\<close>: 53 significant bits, and the spacing
  of the subnormal numbers (\<open>2 powi - 1074\<close>) below the smallest normal binade.
\<close>

definition ulp_exp :: "rat \<Rightarrow> int" where
  "ulp_exp x = max (ilog2 x) (- 1022) - 52"

definition rn :: "rat \<Rightarrow> rat" where
  "rn x =
     (if x = 0 then 0
      else of_int (round_even (x / 2 powi ulp_exp x)) * 2 powi ulp_exp x)"

text \<open>Rounding overflows to an infinity when the rounded magnitude reaches \<open>2 powi 1024\<close>.\<close>

definition rnd :: "rat \<Rightarrow> double" where
  "rnd x =
     (let r = rn x
      in if 2 powi 1024 \<le> r then PInf
         else if r \<le> - (2 powi 1024) then NInf
         else Fin r)"

text \<open>A finite double is a rational that rounding leaves unchanged.\<close>

fun finite_double :: "double \<Rightarrow> bool" where
  "finite_double (Fin a) = (rnd a = Fin a)"
| "finite_double _ = False"

subsection \<open>Comparisons and arithmetic\<close>

fun fl_lt :: "double \<Rightarrow> double \<Rightarrow> bool" where
  "fl_lt NaN _ = False"
| "fl_lt _ NaN = False"
| "fl_lt (Fin a) (Fin b) = (a < b)"
| "fl_lt _ NInf = False"
| "fl_lt NInf _ = True"
| "fl_lt PInf _ = False"
| "fl_lt _ PInf = True"

fun fl_le :: "double \<Rightarrow> double \<Rightarrow> bool" where
  "fl_le NaN _ = False"
| "fl_le _ NaN = False"
| "fl_le (Fin a) (Fin b) = (a \<le> b)"
| "fl_le NInf _ = True"
| "fl_le _ PInf = True"
| "fl_le _ _ = False"

fun is_neg :: "double \<Rightarrow> bool" where
  "is_neg (Fin a) = (a < 0)"
| "is_neg NInf = True"
| "is_neg _ = False"

definition signed_inf :: "bool \<Rightarrow> double" where
  "signed_inf neg = (if neg then NInf else PInf)"

fun fl_add :: "double \<Rightarrow> double \<Rightarrow> double" where
  "fl_add (Fin a) (Fin b) = rnd (a + b)"
| "fl_add NaN _ = NaN"
| "fl_add _ NaN = NaN"
| "fl_add PInf NInf = NaN"
| "fl_add NInf PInf = NaN"
| "fl_add PInf _ = PInf"
| "fl_add NInf _ = NInf"
| "fl_add _ PInf = PInf"
| "fl_add _ NInf = NInf"

fun fl_sub :: "double \<Rightarrow> double \<Rightarrow> double" where
  "fl_sub (Fin a) (Fin b) = rnd (a - b)"
| "fl_sub NaN _ = NaN"
| "fl_sub _ NaN = NaN"
| "fl_sub PInf PInf = NaN"
| "fl_sub NInf NInf = NaN"
| "fl_sub PInf _ = PInf"
| "fl_sub NInf _ = NInf"
| "fl_sub _ PInf = NInf"
| "fl_sub _ NInf = PInf"

fun fl_mul :: "double \<Rightarrow> double \<Rightarrow> double" where
  "fl_mul (Fin a) (Fin b) = rnd (a * b)"
| "fl_mul NaN _ = NaN"
| "fl_mul _ NaN = NaN"
| "fl_mul (Fin a) y = (if a = 0 then NaN else signed_inf ((a < 0) \<noteq> is_neg y))"
| "fl_mul x (Fin b) = (if b = 0 then NaN else signed_inf (is_neg x \<noteq> (b < 0)))"
| "fl_mul x y = signed_inf (is_neg x \<noteq> is_neg y)"

text \<open>
  Python's \<^verbatim>\<open>/\<close> on floats raises \<^verbatim>\<open>ZeroDivisionError\<close> when the right operand is zero
  (checked before anything else) and is the IEEE division otherwise.
\<close>

fun fl_div :: "double \<Rightarrow> double \<Rightarrow> py_error + double" where
  "fl_div x (Fin b) =
     (if b = 0 then Inl ZeroDivisionError
      else Inr (case x of
                  Fin a \<Rightarrow> rnd (a / b)
                | NaN \<Rightarrow> NaN
                | _ \<Rightarrow> signed_inf (is_neg x \<noteq> (b < 0))))"
| "fl_div NaN _ = Inr NaN"
| "fl_div _ NaN = Inr NaN"
| "fl_div (Fin a) _ = Inr (Fin 0)"
| "fl_div _ _ = Inr NaN"

text \<open>
  C's \<^verbatim>\<open>fmod\<close>: the remainder of the division truncated towards zero. Its result is exact
  (no rounding) and has the sign of the dividend.
\<close>

definition trunc :: "rat \<Rightarrow> int" where
  "trunc r = (if 0 \<le> r then \<lfloor>r\<rfloor> else \<lceil>r\<rceil>)"

fun c_fmod :: "double \<Rightarrow> double \<Rightarrow> double" where
  "c_fmod (Fin a) (Fin b) = (if b = 0 then NaN else Fin (a - b * of_int (trunc (a / b))))"
| "c_fmod (Fin a) PInf = Fin a"
| "c_fmod (Fin a) NInf = Fin a"
| "c_fmod _ _ = NaN"

text \<open>
  Python's \<^verbatim>\<open>%\<close> on floats (CPython's \<^verbatim>\<open>float_rem\<close>): \<^verbatim>\<open>fmod\<close>, then the divisor is added
  when the remainder is non-zero and its sign differs from the divisor's; that addition
  is an ordinary rounded one. A zero remainder takes the sign of the divisor.
\<close>

definition float_rem :: "double \<Rightarrow> double \<Rightarrow> py_error + double" where
  "float_rem vx wx =
     (if wx = Fin 0 then Inl ZeroDivisionError
      else let m = c_fmod vx wx
           in if m \<noteq> Fin 0
              then (if fl_lt wx (Fin 0) \<noteq> fl_lt m (Fin 0) then Inr (fl_add m wx) else Inr m)
              else Inr (Fin 0))"

section \<open>The angle factor\<close>

text \<open>The literal \<^verbatim>\<open>0.1\<close> denotes the double nearest to one tenth.\<close>

definition lit_0_1 :: double where
  "lit_0_1 = rnd (1 / 10)"

text \<open>
  The four branch bodies of \<^verbatim>\<open>calculate_angle_factor\<close> (lines 21, 24, 27 and 30), each a
  function of \<^verbatim>\<open>normalized_angle\<close>. The integer literals \<^verbatim>\<open>1\<close>, \<^verbatim>\<open>90\<close>, \<^verbatim>\<open>180\<close> and
  \<^verbatim>\<open>270\<close> convert to doubles exactly.
\<close>

definition first_quadrant :: "double \<Rightarrow> py_error + double" where
  "first_quadrant normalized_angle =
     (case fl_div normalized_angle (Fin 90) of
        Inl e \<Rightarrow> Inl e
      | Inr t \<Rightarrow> Inr (fl_sub (Fin 1) (fl_mul t (fl_sub (Fin 1) lit_0_1))))"

definition second_quadrant :: "double \<Rightarrow> py_error + double" where
  "second_quadrant normalized_angle =
     (case fl_div (fl_sub normalized_angle (Fin 90)) (Fin 90) of
        Inl e \<Rightarrow> Inl e
      | Inr t \<Rightarrow> Inr (fl_add lit_0_1 (fl_mul t (fl_sub (Fin 1) lit_0_1))))"

definition third_quadrant :: "double \<Rightarrow> py_error + double" where
  "third_quadrant normalized_angle =
     (case fl_div (fl_sub normalized_angle (Fin 180)) (Fin 90) of
        Inl e \<Rightarrow> Inl e
      | Inr t \<Rightarrow> Inr (fl_sub (Fin 1) (fl_mul t (fl_sub (Fin 1) lit_0_1))))"

definition fourth_quadrant :: "double \<Rightarrow> py_error + double" where
  "fourth_quadrant normalized_angle =
     (case fl_div (fl_sub normalized_angle (Fin 270)) (Fin 90) of
        Inl e \<Rightarrow> Inl e
      | Inr t \<Rightarrow> Inr (fl_add lit_0_1 (fl_mul t (fl_sub (Fin 1) lit_0_1))))"

definition calculate_angle_factor :: "double \<Rightarrow> py_error + double" where
  "calculate_angle_factor angle =
     (case float_rem angle (Fin 360) of
        Inl e \<Rightarrow> Inl e
      | Inr normalized_angle \<Rightarrow>
          if fl_le (Fin 0) normalized_angle \<and> fl_le normalized_angle (Fin 90)
            then first_quadrant normalized_angle
          else if fl_lt (Fin 90) normalized_angle \<and> fl_le normalized_angle (Fin 180)
            then second_quadrant normalized_angle
          else if fl_lt (Fin 180) normalized_angle \<and> fl_le normalized_angle (Fin 270)
            then third_quadrant normalized_angle
          else fourth_quadrant normalized_angle)"

section \<open>Strings\<close>

text \<open>
  \<^verbatim>\<open>str.lower()\<close> on the ASCII letters. Python also lowers capital letters outside ASCII,
  but none of them becomes a string of ASCII letters that spells \<^verbatim>\<open>headwind\<close> or
  \<^verbatim>\<open>tailwind\<close>, and the source only compares the lowered string with these two.
\<close>

definition upper_table :: "(char \<times> char) list" where
  "upper_table = zip ''ABCDEFGHIJKLMNOPQRSTUVWXYZ'' ''abcdefghijklmnopqrstuvwxyz''"

definition lower_char :: "char \<Rightarrow> char" where
  "lower_char c = (case map_of upper_table c of Some d \<Rightarrow> d | None \<Rightarrow> c)"

definition lower :: "string \<Rightarrow> string" where
  "lower s = map lower_char s"

section \<open>The step-by-step calculation\<close>

text \<open>
  A Python value as far as \<^verbatim>\<open>calculate_steps\<close> builds one: a float, a string, or a
  dictionary with string keys, kept in insertion order.
\<close>

datatype pyval = PFloat double | PStr string | PDict "(string \<times> pyval) list"

text \<open>
  The f-strings of the source format floats with Python's \<^verbatim>\<open>str\<close> (\<^verbatim>\<open>{x}\<close>) and with four
  decimals (\<^verbatim>\<open>{x:.4f}\<close>). Both formatters belong to the Python runtime and are parameters
  of the model.
\<close>

record formatter =
  fmt_str :: "double \<Rightarrow> string"
  fmt_4f :: "double \<Rightarrow> string"

text \<open>
  \<^verbatim>\<open>calculate_steps\<close>, statement by statement. The arguments are floats already, so the
  three \<^verbatim>\<open>float(...)\<close> conversions at the start are identities. \<open>Inl\<close> is an exception
  that leaves the function, \<open>Inr\<close> the dictionary it returns; the invalid direction
  returns a fresh dictionary, not \<^verbatim>\<open>results\<close>.
\<close>

definition calculate_steps ::
    "formatter \<Rightarrow> double \<Rightarrow> double \<Rightarrow> double \<Rightarrow> string \<Rightarrow> py_error + (string \<times> pyval) list" where
  "calculate_steps F distance wind angle wind_direction =
     (let results = [];
          step_1 = fl_mul distance wind;
          results = AList.update ''step_1''
            (PDict [(''formula'', PStr (fmt_str F distance @ '' * '' @ fmt_str F wind)),
                    (''result'', PFloat step_1)]) results
      in case calculate_angle_factor angle of
           Inl e \<Rightarrow> Inl e
         | Inr angle_factor \<Rightarrow>
            (let results = AList.update ''angle_factor'' (PFloat angle_factor) results
             in case (if lower wind_direction = ''tailwind'' then Some (Fin 225)
                      else if lower wind_direction = ''headwind'' then Some (Fin 180)
                      else None) of
                  None \<Rightarrow>
                    Inr [(''error'',
                          PStr ''Invalid wind direction. Please use 'headwind' or 'tailwind'.'')]
                | Some divisor \<Rightarrow>
                   (case fl_div divisor angle_factor of
                      Inl e \<Rightarrow> Inl e
                    | Inr step_2 \<Rightarrow>
                       (let results = AList.update ''step_2''
                              (PDict [(''divisor'', PFloat divisor),
                                      (''formula'',
                                       PStr (fmt_str F divisor @ '' / '' @ fmt_4f F angle_factor)),
                                      (''result'', PFloat step_2)]) results
                        in case fl_div step_1 step_2 of
                             Inl e \<Rightarrow> Inl e
                           | Inr step_3 \<Rightarrow>
                              (let results = AList.update ''step_3''
                                     (PDict [(''formula'',
                                              PStr (fmt_4f F step_1 @ '' / '' @ fmt_4f F step_2)),
                                             (''result'', PFloat step_3)]) results;
                                   adjusted_distance = Fin 0;
                                   (adjusted_distance, results) =
                                     (if lower wind_direction = ''headwind'' then
                                        (let adjusted_distance = fl_add distance step_3
                                         in (adjusted_distance,
                                             AList.update ''step_4''
                                               (PDict [(''formula'',
                                                        PStr (fmt_str F distance @ '' + ''
                                                              @ fmt_4f F step_3)),
                                                       (''result'', PFloat adjusted_distance)])
                                               results))
                                      else if lower wind_direction = ''tailwind'' then
                                        (let adjusted_distance = fl_sub distance step_3
                                         in (adjusted_distance,
                                             AList.update ''step_4''
                                               (PDict [(''formula'',
                                                        PStr (fmt_str F distance @ '' - ''
                                                              @ fmt_4f F step_3)),
                                                       (''result'', PFloat adjusted_distance)])
                                               results))
                                      else (adjusted_distance, results));
                                   results = AList.update ''adjusted_distance''
                                     (PFloat adjusted_distance) results
                               in Inr results)))))"

section \<open>Notions of the specification\<close>

text \<open>
  Two characters match case-insensitively when they are equal or are the capital and the
  small form of one letter; two strings match when they do so position by position.
\<close>

definition ci_char :: "char \<Rightarrow> char \<Rightarrow> bool" where
  "ci_char c d = (c = d \<or> (c, d) \<in> set upper_table \<or> (d, c) \<in> set upper_table)"

definition ci_match :: "string \<Rightarrow> string \<Rightarrow> bool" where
  "ci_match s t = list_all2 ci_char s t"

definition valid_direction :: "string \<Rightarrow> bool" where
  "valid_direction s = (ci_match s ''headwind'' \<or> ci_match s ''tailwind'')"

text \<open>The tagged failure value: a returned dictionary with the key \<^verbatim>\<open>error\<close>.\<close>

fun is_failure :: "py_error + (string \<times> pyval) list \<Rightarrow> bool" where
  "is_failure (Inr d) = (map_of d ''error'' \<noteq> None)"
| "is_failure (Inl e) = False"

text \<open>The keys of the calculation trace.\<close>

definition trace_keys :: "string list" where
  "trace_keys =
     [''step_1'', ''angle_factor'', ''step_2'', ''step_3'', ''step_4'', ''adjusted_distance'']"

text \<open>The least value the angle factor takes: the double \<^verbatim>\<open>1 - 0.9\<close>.\<close>

definition factor_min :: rat where
  "factor_min = 900719925474099 / 9007199254740992"

text \<open>The doubles denoted by \<^verbatim>\<open>0.1\<close> and by \<^verbatim>\<open>1 - 0.1\<close>.\<close>

definition d_0_1 :: rat where
  "d_0_1 = 3602879701896397 / 36028797018963968"

definition d_0_9 :: rat where
  "d_0_9 = 8106479329266893 / 9007199254740992"

text \<open>A call returns a finite double between two bounds.\<close>

fun returns_within :: "rat \<Rightarrow> rat \<Rightarrow> py_error + double \<Rightarrow> bool" where
  "returns_within lo hi (Inr (Fin f)) = (lo \<le> f \<and> f \<le> hi)"
| "returns_within lo hi _ = False"

text \<open>
  The calculation trace with given entries, in the order in which \<^verbatim>\<open>calculate_steps\<close>
  inserts them; \<open>sign\<close> is the operator shown in the formula of the last step.
\<close>

definition trace_dict ::
    "formatter \<Rightarrow> double \<Rightarrow> double \<Rightarrow> double \<Rightarrow> string \<Rightarrow> double \<Rightarrow> double \<Rightarrow> double \<Rightarrow> double
      \<Rightarrow> double \<Rightarrow> (string \<times> pyval) list" where
  "trace_dict F distance wind divisor sign step_1 angle_factor step_2 step_3 adjusted =
     [(''step_1'',
       PDict [(''formula'', PStr (fmt_str F distance @ '' * '' @ fmt_str F wind)),
              (''result'', PFloat step_1)]),
      (''angle_factor'', PFloat angle_factor),
      (''step_2'',
       PDict [(''divisor'', PFloat divisor),
              (''formula'', PStr (fmt_str F divisor @ '' / '' @ fmt_4f F angle_factor)),
              (''result'', PFloat step_2)]),
      (''step_3'',
       PDict [(''formula'', PStr (fmt_4f F step_1 @ '' / '' @ fmt_4f F step_2)),
              (''result'', PFloat step_3)]),
      (''step_4'',
       PDict [(''formula'', PStr (fmt_str F distance @ sign @ fmt_4f F step_3)),
              (''result'', PFloat adjusted)]),
      (''adjusted_distance'', PFloat adjusted)]"

text \<open>A dictionary has none of the keys of the trace.\<close>

definition no_trace_fields :: "(string \<times> pyval) list \<Rightarrow> bool" where
  "no_trace_fields d = list_all (\<lambda>k. map_of d k = None) trace_keys"

section \<open>Properties of the rounding\<close>

lemma round_even_of_int: "round_even (of_int k) = k"
  by (simp add: round_even_def)

lemma round_even_lower: "\<lfloor>y\<rfloor> \<le> round_even y"
  by (simp add: round_even_def Let_def)

lemma round_even_upper: "round_even y \<le> \<lfloor>y\<rfloor> + 1"
  by (simp add: round_even_def Let_def)

lemma round_even_mono:
  assumes "x \<le> y"
  shows "round_even x \<le> round_even y"
proof (cases "\<lfloor>x\<rfloor> = \<lfloor>y\<rfloor>")
  case True
  then show ?thesis
    using assms by (auto simp add: round_even_def Let_def)
next
  case False
  with assms have "\<lfloor>x\<rfloor> < \<lfloor>y\<rfloor>"
    using floor_mono [of x y] by linarith
  then show ?thesis
    using round_even_upper [of x] round_even_lower [of y] by linarith
qed

lemma round_even_minus: "round_even (- y) = - round_even y"
proof (cases "y = of_int \<lfloor>y\<rfloor>")
  case True
  then obtain k where "y = of_int k" ..
  then show ?thesis
    by (simp add: round_even_of_int flip: of_int_minus)
next
  case False
  then have fl: "\<lfloor>- y\<rfloor> = - \<lfloor>y\<rfloor> - 1"
    by (simp add: floor_minus ceiling_altdef)
  show ?thesis
    unfolding round_even_def Let_def fl
    by (auto simp add: algebra_simps)
qed

lemma round_even_nonneg: "0 \<le> y \<Longrightarrow> 0 \<le> round_even y"
  using round_even_mono [of 0 y] round_even_of_int [of 0] by simp

lemma pow2_exp_less:
  assumes "(2::rat) powi a \<le> x" "x < 2 powi (b + 1)"
  shows "a \<le> b"
proof -
  have lt: "(2::rat) powi a < 2 powi (b + 1)"
    using assms by linarith
  have "\<not> b + 1 \<le> a"
  proof
    assume "b + 1 \<le> a"
    then have "(2::rat) powi (b + 1) \<le> 2 powi a"
      by (rule power_int_increasing) simp
    with lt show False by simp
  qed
  then show ?thesis by simp
qed

lemma int_pow2_bounds:
  assumes "1 \<le> b" "(2::int) ^ nat (b - 1) \<le> p" "p < 2 ^ nat b"
  shows "(2::rat) powi (b - 1) \<le> of_int p" and "(of_int p :: rat) < 2 powi b"
proof -
  have "(of_int (2 ^ nat (b - 1)) :: rat) \<le> of_int p"
    using assms(2) by (simp only: of_int_le_iff)
  then show "(2::rat) powi (b - 1) \<le> of_int p"
    using assms(1) by (simp add: power_int_def)
  have "(of_int p :: rat) < of_int (2 ^ nat b)"
    using assms(3) by (simp only: of_int_less_iff)
  then show "(of_int p :: rat) < 2 powi b"
    using assms(1) by (simp add: power_int_def)
qed

text \<open>The computed exponent is the binary exponent, and the only one.\<close>

lemma ilog2_bounds:
  assumes "x \<noteq> 0"
  shows "2 powi ilog2 x \<le> \<bar>x\<bar>" and "\<bar>x\<bar> < 2 powi (ilog2 x + 1)"
proof -
  obtain p q where pq: "quotient_of \<bar>x\<bar> = (p, q)"
    by (cases "quotient_of \<bar>x\<bar>")
  have q: "0 < q" using pq by (rule quotient_of_denom_pos)
  have x: "\<bar>x\<bar> = of_int p / of_int q" using pq by (rule quotient_of_div)
  have "0 < \<bar>x\<bar>" using assms by simp
  then have p: "0 < p"
    using q x by (simp add: zero_less_divide_iff)
  define bp where "bp = bitlen p"
  define bq where "bq = bitlen q"
  have bp1: "1 \<le> bp" and bq1: "1 \<le> bq"
    using p q by (simp_all add: bp_def bq_def bitlen_alt_def)
  have P: "(2::int) ^ nat (bp - 1) \<le> p" "p < 2 ^ nat bp"
    using bitlen_bounds [OF p] by (simp_all add: bp_def)
  have Q: "(2::int) ^ nat (bq - 1) \<le> q" "q < 2 ^ nat bq"
    using bitlen_bounds [OF q] by (simp_all add: bq_def)
  have Pr: "(2::rat) powi (bp - 1) \<le> of_int p" "(of_int p :: rat) < 2 powi bp"
    using int_pow2_bounds [OF bp1 P] by simp_all
  have Qr: "(2::rat) powi (bq - 1) \<le> of_int q" "(of_int q :: rat) < 2 powi bq"
    using int_pow2_bounds [OF bq1 Q] by simp_all
  have qpos: "(0::rat) < of_int q" using q by simp
  have up: "\<bar>x\<bar> < 2 powi (bp - bq + 1)"
  proof -
    have "of_int p < (2::rat) powi (bp - bq + 1) * 2 powi (bq - 1)"
      using Pr(2) by (simp flip: power_int_add)
    also have "\<dots> \<le> 2 powi (bp - bq + 1) * of_int q"
      using Qr(1) by (simp add: mult_left_mono)
    finally show ?thesis
      using qpos by (simp add: x pos_divide_less_eq)
  qed
  have lo: "2 powi (bp - bq - 1) < \<bar>x\<bar>"
  proof -
    have "(2::rat) powi (bp - bq - 1) * of_int q < 2 powi (bp - bq - 1) * 2 powi bq"
      using Qr(2) by (simp add: mult_strict_left_mono)
    also have "\<dots> = 2 powi (bp - 1)"
      by (simp flip: power_int_add)
    also have "\<dots> \<le> of_int p" using Pr(1) .
    finally show ?thesis
      using qpos by (simp add: x pos_less_divide_eq)
  qed
  have il: "ilog2 x = (if 2 powi (bp - bq) \<le> \<bar>x\<bar> then bp - bq else bp - bq - 1)"
    by (simp add: ilog2_def pq bp_def bq_def Let_def)
  show "2 powi ilog2 x \<le> \<bar>x\<bar>"
    using lo by (simp add: il)
  show "\<bar>x\<bar> < 2 powi (ilog2 x + 1)"
    using up by (auto simp add: il)
qed

lemma ilog2_unique:
  assumes "2 powi e \<le> \<bar>x\<bar>" "\<bar>x\<bar> < 2 powi (e + 1)"
  shows "ilog2 x = e"
proof -
  have "0 < \<bar>x\<bar>"
    using assms(1) zero_less_power_int [of "2::rat" e] by linarith
  then have nz: "x \<noteq> 0" by simp
  have "ilog2 x \<le> e"
    using ilog2_bounds(1) [OF nz] assms(2) by (rule pow2_exp_less)
  moreover have "e \<le> ilog2 x"
    using assms(1) ilog2_bounds(2) [OF nz] by (rule pow2_exp_less)
  ultimately show ?thesis by simp
qed

lemma ilog2_minus: "ilog2 (- x) = ilog2 x"
  by (simp add: ilog2_def)

lemma ulp_exp_minus: "ulp_exp (- x) = ulp_exp x"
  by (simp add: ulp_exp_def ilog2_minus)

lemma rn_minus: "rn (- x) = - rn x"
  by (simp add: rn_def ulp_exp_minus round_even_minus)

lemma rn_nonneg: "0 \<le> x \<Longrightarrow> 0 \<le> rn x"
  by (simp add: rn_def round_even_nonneg)

text \<open>Rounding never crosses a point of the grid it rounds to.\<close>

lemma rn_le_grid:
  assumes "x \<le> of_int k * 2 powi ulp_exp x"
  shows "rn x \<le> of_int k * 2 powi ulp_exp x"
proof (cases "x = 0")
  case True
  then show ?thesis using assms by (simp add: rn_def)
next
  case False
  have pos: "(0::rat) < 2 powi ulp_exp x" by simp
  have "x / 2 powi ulp_exp x \<le> of_int k"
    using assms pos by (simp add: pos_divide_le_eq)
  then have "round_even (x / 2 powi ulp_exp x) \<le> k"
    using round_even_mono round_even_of_int by metis
  then have "(of_int (round_even (x / 2 powi ulp_exp x)) :: rat) \<le> of_int k"
    by (simp only: of_int_le_iff)
  then show ?thesis
    using False pos by (simp add: rn_def)
qed

lemma rn_ge_grid:
  assumes "of_int k * 2 powi ulp_exp x \<le> x"
  shows "of_int k * 2 powi ulp_exp x \<le> rn x"
proof (cases "x = 0")
  case True
  then show ?thesis using assms by (simp add: rn_def)
next
  case False
  have pos: "(0::rat) < 2 powi ulp_exp x" by simp
  have "of_int k \<le> x / 2 powi ulp_exp x"
    using assms pos by (simp add: pos_le_divide_eq)
  then have "k \<le> round_even (x / 2 powi ulp_exp x)"
    using round_even_mono round_even_of_int by metis
  then have "(of_int k :: rat) \<le> of_int (round_even (x / 2 powi ulp_exp x))"
    by (simp only: of_int_le_iff)
  then show ?thesis
    using False pos by (simp add: rn_def)
qed

text \<open>
  Rounding is monotone. Within one binade it is rounding to a fixed grid; across binades
  the power of two between the arguments is a grid point of both.
\<close>

lemma rn_mono_pos:
  assumes "0 < x" "x \<le> y"
  shows "rn x \<le> rn y"
proof -
  have nz: "x \<noteq> 0" "y \<noteq> 0" using assms by simp_all
  define ex where "ex = ilog2 x"
  define ey where "ey = ilog2 y"
  have bx: "2 powi ex \<le> x" "x < 2 powi (ex + 1)"
    using ilog2_bounds [OF nz(1)] assms by (simp_all add: ex_def)
  have by': "2 powi ey \<le> y" "y < 2 powi (ey + 1)"
    using ilog2_bounds [OF nz(2)] assms by (simp_all add: ey_def)
  have exy: "ex \<le> ey"
  proof (rule pow2_exp_less)
    show "2 powi ex \<le> x" by (rule bx(1))
    show "x < 2 powi (ey + 1)" using assms(2) by'(2) by simp
  qed
  define mx where "mx = max ex (- 1022)"
  have ux: "ulp_exp x = mx - 52" by (simp add: ulp_exp_def mx_def ex_def)
  show ?thesis
  proof (cases "ulp_exp x = ulp_exp y")
    case True
    have "x / 2 powi ulp_exp y \<le> y / 2 powi ulp_exp y"
      using assms(2) by (simp add: divide_right_mono)
    then have "round_even (x / 2 powi ulp_exp y) \<le> round_even (y / 2 powi ulp_exp y)"
      by (rule round_even_mono)
    then have "(of_int (round_even (x / 2 powi ulp_exp y)) :: rat)
        \<le> of_int (round_even (y / 2 powi ulp_exp y))"
      by (simp only: of_int_le_iff)
    then show ?thesis
      using nz True by (simp add: rn_def)
  next
    case False
    then have big: "mx + 1 \<le> ey"
      using exy
      by (auto simp add: ulp_exp_def mx_def ex_def [symmetric] ey_def [symmetric] max_def
          split: if_splits)
    then have uy: "ulp_exp y = ey - 52"
      by (simp add: ulp_exp_def ey_def [symmetric] mx_def)
    have "x \<le> 2 powi (ex + 1)" using bx(2) by simp
    also have "\<dots> \<le> 2 powi (mx + 1)"
      by (rule power_int_increasing) (simp_all add: mx_def)
    also have "\<dots> = of_int (2 ^ 53) * 2 powi ulp_exp x"
      by (simp add: ux power_int_diff power_int_add)
    finally have "rn x \<le> of_int (2 ^ 53) * 2 powi ulp_exp x"
      by (rule rn_le_grid)
    also have "\<dots> = 2 powi (mx + 1)"
      by (simp add: ux power_int_diff power_int_add)
    also have "\<dots> \<le> 2 powi ey"
      using big by (rule power_int_increasing) simp
    also have "\<dots> = of_int (2 ^ 52) * 2 powi ulp_exp y"
      by (simp add: uy power_int_diff)
    also have "\<dots> \<le> rn y"
    proof (rule rn_ge_grid)
      have "of_int (2 ^ 52) * 2 powi ulp_exp y = (2::rat) powi ey"
        by (simp add: uy power_int_diff)
      then show "of_int (2 ^ 52) * 2 powi ulp_exp y \<le> y"
        using by'(1) by simp
    qed
    finally show ?thesis .
  qed
qed

lemma rn_mono:
  assumes "x \<le> y"
  shows "rn x \<le> rn y"
proof -
  consider "0 < x" | "x \<le> 0" "0 \<le> y" | "y < 0"
    using assms by linarith
  then show ?thesis
  proof cases
    case 1
    then show ?thesis using assms by (rule rn_mono_pos)
  next
    case 2
    have "rn x \<le> 0"
      using rn_nonneg [of "- x"] 2(1) by (simp add: rn_minus)
    also have "0 \<le> rn y" using 2(2) by (rule rn_nonneg)
    finally show ?thesis .
  next
    case 3
    have "rn (- y) \<le> rn (- x)"
      using 3 assms by (intro rn_mono_pos) simp_all
    then show ?thesis by (simp add: rn_minus)
  qed
qed

text \<open>A number with at most 53 significant bits above the subnormal spacing is a double.\<close>

lemma rn_fix:
  assumes "x = of_int m * 2 powi q" "\<bar>m\<bar> < 2 ^ 53" "- 1074 \<le> q"
  shows "rn x = x"
proof (cases "x = 0")
  case True
  then show ?thesis by (simp add: rn_def)
next
  case False
  have "\<bar>x\<bar> = of_int \<bar>m\<bar> * 2 powi q"
    by (simp add: assms(1) abs_mult)
  also have "\<dots> < of_int (2 ^ 53) * 2 powi q"
    using assms(2)
    by (intro mult_strict_right_mono)
      (simp_all only: of_int_less_iff zero_less_power_int zero_less_numeral)
  also have "\<dots> = 2 powi (q + 53)"
    by (simp add: power_int_add)
  finally have "\<bar>x\<bar> < 2 powi (q + 52 + 1)" by (simp add: add.assoc)
  with ilog2_bounds(1) [OF False] have "ilog2 x \<le> q + 52"
    by (rule pow2_exp_less)
  then have u: "ulp_exp x \<le> q"
    using assms(3) by (simp add: ulp_exp_def)
  define u where "u = ulp_exp x"
  define d where "d = nat (q - u)"
  have q: "q = u + int d" using u by (simp add: d_def u_def)
  have xm: "x = of_int (m * 2 ^ d) * 2 powi u"
    by (simp add: assms(1) q power_int_add)
  have "x / 2 powi u = of_int (m * 2 ^ d)"
    by (subst xm) simp
  then have "round_even (x / 2 powi u) = m * 2 ^ d"
    by (simp only: round_even_of_int)
  then have "rn x = of_int (m * 2 ^ d) * 2 powi u"
    using False by (simp add: rn_def u_def)
  also have "\<dots> = x"
    by (rule xm [symmetric])
  finally show ?thesis .
qed

section \<open>Evaluating and bounding rounded results\<close>

lemma floor_rat_numeral:
  "\<lfloor>(numeral a / numeral b :: rat)\<rfloor> = numeral a div numeral b"
  using floor_divide_of_int_eq [of "numeral a" "numeral b", where ?'a = rat] by simp

lemma rn_eval:
  assumes "2 powi e \<le> \<bar>x\<bar>" "\<bar>x\<bar> < 2 powi (e + 1)" "- 1022 \<le> e"
  shows "rn x = of_int (round_even (x / 2 powi (e - 52))) * 2 powi (e - 52)"
proof -
  have "0 < \<bar>x\<bar>"
    using assms(1) zero_less_power_int [of "2::rat" e] by linarith
  then have nz: "x \<noteq> 0" by simp
  have "ilog2 x = e" using assms(1,2) by (rule ilog2_unique)
  then have "ulp_exp x = e - 52"
    using assms(3) by (simp add: ulp_exp_def)
  then show ?thesis using nz by (simp add: rn_def)
qed

lemma rnd_eval:
  assumes "rn x = r" "- (2 powi 1024) < r" "r < 2 powi 1024"
  shows "rnd x = Fin r"
  using assms by (simp add: rnd_def Let_def)

lemma rnd_between:
  assumes "lo \<le> x" "x \<le> hi" "rn lo = l" "rn hi = h" "- (2 powi 1024) < l" "h < 2 powi 1024"
  shows "rnd x = Fin (rn x) \<and> l \<le> rn x \<and> rn x \<le> h"
proof -
  have a: "l \<le> rn x" using rn_mono [OF assms(1)] assms(3) by simp
  have b: "rn x \<le> h" using rn_mono [OF assms(2)] assms(4) by simp
  have "rnd x = Fin (rn x)"
    using a b assms(5,6) by (simp add: rnd_def Let_def)
  with a b show ?thesis by simp
qed

lemma rn_0: "rn 0 = 0" by (simp add: rn_def)
lemma rn_1: "rn 1 = 1" by (rule rn_fix [where m = 1 and q = 0]) simp_all
lemma rn_90: "rn 90 = 90" by (rule rn_fix [where m = 90 and q = 0]) simp_all
lemma rn_360: "rn 360 = 360" by (rule rn_fix [where m = 360 and q = 0]) simp_all
lemma rn_d_0_1: "rn d_0_1 = d_0_1"
  by (rule rn_fix [where m = 3602879701896397 and q = "- 55"]) (simp_all add: d_0_1_def)
lemma rn_d_0_9: "rn d_0_9 = d_0_9"
  by (rule rn_fix [where m = 8106479329266893 and q = "- 53"]) (simp_all add: d_0_9_def)
lemma rn_factor_min: "rn factor_min = factor_min"
  by (rule rn_fix [where m = 900719925474099 and q = "- 53"]) (simp_all add: factor_min_def)

lemma rn_tenth: "rn (1 / 10) = d_0_1"
  by (subst rn_eval [where e = "- 4"]) (simp_all add: round_even_def Let_def floor_rat_numeral d_0_1_def)

lemma lit_0_1_val: "lit_0_1 = Fin d_0_1"
  unfolding lit_0_1_def by (rule rnd_eval [OF rn_tenth]) (simp_all add: d_0_1_def)

lemma rn_nine_tenths: "rn (1 - d_0_1) = d_0_9"
  by (subst rn_eval [where e = "- 1"]) (simp_all add: round_even_def Let_def floor_rat_numeral d_0_1_def d_0_9_def)

lemma lit_0_9_val: "fl_sub (Fin 1) lit_0_1 = Fin d_0_9"
  unfolding lit_0_1_val fl_sub.simps by (rule rnd_eval [OF rn_nine_tenths]) (simp_all add: d_0_9_def)

lemma lit_0_9_val': "fl_sub (Fin 1) (Fin d_0_1) = Fin d_0_9"
  using lit_0_9_val by (simp only: lit_0_1_val)

lemma one_minus_d_0_9: "1 - d_0_9 = factor_min"
  by (simp add: d_0_9_def factor_min_def)

lemma rn_sum_lits: "rn (d_0_1 + d_0_9) = 1"
  by (subst rn_eval [where e = 0]) (simp_all add: round_even_def Let_def floor_rat_numeral d_0_1_def d_0_9_def)


lemma returns_withinE:
  assumes "returns_within lo hi r"
  obtains f where "r = Inr (Fin f)" "lo \<le> f" "f \<le> hi"
  using assms by (cases "(lo, hi, r)" rule: returns_within.cases) simp_all

lemma d_0_9_pos: "0 < d_0_9" by (simp add: d_0_9_def)

lemma unit_scale:
  assumes "0 \<le> s" "s \<le> 90"
  shows "\<exists>t p. fl_div (Fin s) (Fin 90) = Inr (Fin t)
           \<and> fl_mul (Fin t) (Fin d_0_9) = Fin p \<and> 0 \<le> p \<and> p \<le> d_0_9"
proof -
  define t where "t = rn (s / 90)"
  have "0 \<le> s / 90" "s / 90 \<le> 1" using assms by simp_all
  from rnd_between [OF this rn_0 rn_1]
  have t: "rnd (s / 90) = Fin t" "0 \<le> t" "t \<le> 1"
    by (simp_all add: t_def)
  define p where "p = rn (t * d_0_9)"
  have "0 \<le> t * d_0_9" "t * d_0_9 \<le> d_0_9"
    using t(2,3) d_0_9_pos by (simp_all add: mult_left_le_one_le)
  from rnd_between [OF this rn_0 rn_d_0_9]
  have p: "rnd (t * d_0_9) = Fin p" "0 \<le> p" "p \<le> d_0_9"
    by (simp_all add: p_def d_0_9_def)
  show ?thesis
    using t(1) p by simp
qed

lemma descend:
  assumes "0 \<le> p" "p \<le> d_0_9"
  shows "\<exists>f. fl_sub (Fin 1) (Fin p) = Fin f \<and> factor_min \<le> f \<and> f \<le> 1"
proof -
  have "factor_min \<le> 1 - p" "1 - p \<le> 1"
    using assms by (simp_all flip: one_minus_d_0_9)
  from rnd_between [OF this rn_factor_min rn_1]
  show ?thesis by (simp add: factor_min_def)
qed

lemma ascend:
  assumes "0 \<le> p" "p \<le> d_0_9"
  shows "\<exists>f. fl_add (Fin d_0_1) (Fin p) = Fin f \<and> d_0_1 \<le> f \<and> f \<le> 1"
proof -
  have "d_0_1 \<le> d_0_1 + p" "d_0_1 + p \<le> d_0_1 + d_0_9"
    using assms by simp_all
  from rnd_between [OF this rn_d_0_1 rn_sum_lits]
  show ?thesis by (simp add: d_0_1_def)
qed

lemma factor_min_le_d_0_1: "factor_min \<le> d_0_1"
  by (simp add: factor_min_def d_0_1_def)

lemma shifted:
  assumes "c \<le> n" "n \<le> c + 90" "rn 0 = 0"
  shows "\<exists>s. fl_sub (Fin n) (Fin c) = Fin s \<and> 0 \<le> s \<and> s \<le> 90"
proof -
  have "0 \<le> n - c" "n - c \<le> 90" using assms by simp_all
  from rnd_between [OF this rn_0 rn_90]
  show ?thesis by simp
qed

lemma first_quadrant_bounds:
  assumes "0 \<le> n" "n \<le> 90"
  shows "returns_within factor_min 1 (first_quadrant (Fin n))"
proof -
  from unit_scale [OF assms] obtain t p
    where tp: "fl_div (Fin n) (Fin 90) = Inr (Fin t)"
      "fl_mul (Fin t) (Fin d_0_9) = Fin p" "0 \<le> p" "p \<le> d_0_9"
    by blast
  from descend [OF tp(3,4)] obtain f
    where "fl_sub (Fin 1) (Fin p) = Fin f" "factor_min \<le> f" "f \<le> 1"
    by blast
  then show ?thesis
    unfolding first_quadrant_def lit_0_9_val tp(1) using tp(2) by simp
qed

lemma third_quadrant_bounds:
  assumes "180 \<le> n" "n \<le> 270"
  shows "returns_within factor_min 1 (third_quadrant (Fin n))"
proof -
  from shifted [of 180 n] assms obtain s
    where s: "fl_sub (Fin n) (Fin 180) = Fin s" "0 \<le> s" "s \<le> 90"
    by (auto simp add: rn_0)
  from unit_scale [OF s(2,3)] obtain t p
    where tp: "fl_div (Fin s) (Fin 90) = Inr (Fin t)"
      "fl_mul (Fin t) (Fin d_0_9) = Fin p" "0 \<le> p" "p \<le> d_0_9"
    by blast
  from descend [OF tp(3,4)] obtain f
    where "fl_sub (Fin 1) (Fin p) = Fin f" "factor_min \<le> f" "f \<le> 1"
    by blast
  then show ?thesis
    unfolding third_quadrant_def lit_0_9_val s(1) tp(1) using tp(2) by simp
qed

lemma second_quadrant_bounds:
  assumes "90 \<le> n" "n \<le> 180"
  shows "returns_within factor_min 1 (second_quadrant (Fin n))"
proof -
  from shifted [of 90 n] assms obtain s
    where s: "fl_sub (Fin n) (Fin 90) = Fin s" "0 \<le> s" "s \<le> 90"
    by (auto simp add: rn_0)
  from unit_scale [OF s(2,3)] obtain t p
    where tp: "fl_div (Fin s) (Fin 90) = Inr (Fin t)"
      "fl_mul (Fin t) (Fin d_0_9) = Fin p" "0 \<le> p" "p \<le> d_0_9"
    by blast
  from ascend [OF tp(3,4)] obtain f
    where "fl_add (Fin d_0_1) (Fin p) = Fin f" "d_0_1 \<le> f" "f \<le> 1"
    by blast
  then show ?thesis
    unfolding second_quadrant_def lit_0_1_val lit_0_9_val' s(1) tp(1)
    using factor_min_le_d_0_1 tp(2) by simp
qed

lemma fourth_quadrant_bounds:
  assumes "270 \<le> n" "n \<le> 360"
  shows "returns_within factor_min 1 (fourth_quadrant (Fin n))"
proof -
  from shifted [of 270 n] assms obtain s
    where s: "fl_sub (Fin n) (Fin 270) = Fin s" "0 \<le> s" "s \<le> 90"
    by (auto simp add: rn_0)
  from unit_scale [OF s(2,3)] obtain t p
    where tp: "fl_div (Fin s) (Fin 90) = Inr (Fin t)"
      "fl_mul (Fin t) (Fin d_0_9) = Fin p" "0 \<le> p" "p \<le> d_0_9"
    by blast
  from ascend [OF tp(3,4)] obtain f
    where "fl_add (Fin d_0_1) (Fin p) = Fin f" "d_0_1 \<le> f" "f \<le> 1"
    by blast
  then show ?thesis
    unfolding fourth_quadrant_def lit_0_1_val lit_0_9_val' s(1) tp(1)
    using factor_min_le_d_0_1 tp(2) by simp
qed

lemma trunc_rem_bounds:
  fixes a :: rat
  defines "m \<equiv> a - 360 * of_int (trunc (a / 360))"
  shows "0 \<le> a \<Longrightarrow> 0 \<le> m \<and> m < 360" and "a < 0 \<Longrightarrow> - 360 < m \<and> m \<le> 0"
proof -
  assume "0 \<le> a"
  define k where "k = \<lfloor>a / 360\<rfloor>"
  have "trunc (a / 360) = k" using \<open>0 \<le> a\<close> by (simp add: trunc_def k_def)
  then have m: "m = a - 360 * of_int k" by (simp add: m_def)
  have "of_int k \<le> a / 360" "a / 360 < of_int k + 1"
    unfolding k_def by linarith+
  then show "0 \<le> m \<and> m < 360"
    unfolding m by linarith
next
  assume "a < 0"
  define k where "k = \<lceil>a / 360\<rceil>"
  have "trunc (a / 360) = k" using \<open>a < 0\<close> by (simp add: trunc_def k_def)
  then have m: "m = a - 360 * of_int k" by (simp add: m_def)
  have "a / 360 \<le> of_int k" "of_int k < a / 360 + 1"
    unfolding k_def by linarith+
  then show "- 360 < m \<and> m \<le> 0"
    unfolding m by linarith
qed

lemma float_rem_bounds:
  "\<exists>n. float_rem (Fin a) (Fin 360) = Inr (Fin n) \<and> 0 \<le> n \<and> n \<le> 360"
proof -
  define m where "m = a - 360 * of_int (trunc (a / 360))"
  have fm: "c_fmod (Fin a) (Fin 360) = Fin m" by (simp add: m_def)
  consider "m = 0" | "0 < m" | "m < 0" by linarith
  then show ?thesis
  proof cases
    case 1
    then show ?thesis unfolding float_rem_def fm by simp
  next
    case 2
    then have "0 \<le> a"
      using trunc_rem_bounds(2) [of a] by (fold m_def) linarith
    then have "m < 360"
      using trunc_rem_bounds(1) [of a] by (simp add: m_def)
    with 2 show ?thesis unfolding float_rem_def fm by simp
  next
    case 3
    then have "a < 0"
      using trunc_rem_bounds(1) [of a] by (fold m_def) linarith
    then have "- 360 < m"
      using trunc_rem_bounds(2) [of a] by (simp add: m_def)
    then have "0 \<le> m + 360" "m + 360 \<le> 360" using 3 by simp_all
    from rnd_between [OF this rn_0 rn_360]
    show ?thesis using 3 unfolding float_rem_def fm by simp
  qed
qed

lemma angle_factor_bounds: "returns_within factor_min 1 (calculate_angle_factor (Fin a))"
proof -
  from float_rem_bounds obtain n
    where n: "float_rem (Fin a) (Fin 360) = Inr (Fin n)" "0 \<le> n" "n \<le> 360"
    by blast
  show ?thesis
    unfolding calculate_angle_factor_def n(1)
    using n(2,3) first_quadrant_bounds [of n] second_quadrant_bounds [of n]
      third_quadrant_bounds [of n] fourth_quadrant_bounds [of n]
    by simp
qed

section \<open>The angle factor at the quadrant boundaries\<close>

lemma rnd_fix:
  assumes "rn x = x" "- (2 powi 1024) < x" "x < 2 powi 1024"
  shows "rnd x = Fin x"
  using assms by (simp add: rnd_def Let_def)

lemma rnd_0: "rnd 0 = Fin 0"
  by (rule rnd_fix [OF rn_0]) simp_all

lemma rnd_1: "rnd 1 = Fin 1"
  by (rule rnd_fix [OF rn_1]) simp_all

lemma rnd_90: "rnd 90 = Fin 90"
  by (rule rnd_fix [OF rn_90]) simp_all

lemma rnd_d_0_1: "rnd d_0_1 = Fin d_0_1"
  by (rule rnd_fix [OF rn_d_0_1]) (simp_all add: d_0_1_def)

lemma rnd_d_0_9: "rnd d_0_9 = Fin d_0_9"
  by (rule rnd_fix [OF rn_d_0_9]) (simp_all add: d_0_9_def)

lemma rnd_factor_min: "rnd factor_min = Fin factor_min"
  by (rule rnd_fix [OF rn_factor_min]) (simp_all add: factor_min_def)

lemma rnd_sum_lits: "rnd (d_0_1 + d_0_9) = Fin 1"
  by (rule rnd_eval [OF rn_sum_lits]) simp_all

lemmas rnd_values = rnd_0 rnd_1 rnd_90 rnd_d_0_1 rnd_d_0_9 rnd_factor_min rnd_sum_lits

lemma float_rem_small:
  assumes "0 \<le> a" "a < 360"
  shows "float_rem (Fin a) (Fin 360) = Inr (Fin a)"
proof -
  have "\<lfloor>a / 360\<rfloor> = 0" using assms by (simp add: floor_eq_iff)
  then have "trunc (a / 360) = 0" using assms by (simp add: trunc_def)
  then show ?thesis using assms by (simp add: float_rem_def Let_def)
qed

lemma float_rem_360: "float_rem (Fin 360) (Fin 360) = Inr (Fin 0)"
  by (simp add: float_rem_def trunc_def Let_def)

lemma first_quadrant_0: "first_quadrant (Fin 0) = Inr (Fin 1)"
  unfolding first_quadrant_def lit_0_9_val by (simp add: rnd_values)

lemma first_quadrant_90: "first_quadrant (Fin 90) = Inr (Fin factor_min)"
  unfolding first_quadrant_def lit_0_9_val by (simp add: rnd_values one_minus_d_0_9)

lemma second_quadrant_90: "second_quadrant (Fin 90) = Inr (Fin d_0_1)"
  unfolding second_quadrant_def lit_0_1_val lit_0_9_val' by (simp add: rnd_values)

lemma second_quadrant_180: "second_quadrant (Fin 180) = Inr (Fin 1)"
  unfolding second_quadrant_def lit_0_1_val lit_0_9_val' by (simp add: rnd_values)

lemma third_quadrant_180: "third_quadrant (Fin 180) = Inr (Fin 1)"
  unfolding third_quadrant_def lit_0_9_val by (simp add: rnd_values)

lemma third_quadrant_270: "third_quadrant (Fin 270) = Inr (Fin factor_min)"
  unfolding third_quadrant_def lit_0_9_val by (simp add: rnd_values one_minus_d_0_9)

lemma fourth_quadrant_270: "fourth_quadrant (Fin 270) = Inr (Fin d_0_1)"
  unfolding fourth_quadrant_def lit_0_1_val lit_0_9_val' by (simp add: rnd_values)

lemma fourth_quadrant_360: "fourth_quadrant (Fin 360) = Inr (Fin 1)"
  unfolding fourth_quadrant_def lit_0_1_val lit_0_9_val' by (simp add: rnd_values)

lemma angle_factor_0: "calculate_angle_factor (Fin 0) = Inr (Fin 1)"
  by (simp add: calculate_angle_factor_def float_rem_small first_quadrant_0)

lemma angle_factor_90: "calculate_angle_factor (Fin 90) = Inr (Fin factor_min)"
  by (simp add: calculate_angle_factor_def float_rem_small first_quadrant_90)

lemma angle_factor_180: "calculate_angle_factor (Fin 180) = Inr (Fin 1)"
  by (simp add: calculate_angle_factor_def float_rem_small second_quadrant_180)

lemma angle_factor_270: "calculate_angle_factor (Fin 270) = Inr (Fin factor_min)"
  by (simp add: calculate_angle_factor_def float_rem_small third_quadrant_270)

lemma angle_factor_360: "calculate_angle_factor (Fin 360) = Inr (Fin 1)"
  by (simp add: calculate_angle_factor_def float_rem_360 first_quadrant_0)

section \<open>The remainder modulo 360 on doubles\<close>

lemma finite_double_rn:
  assumes "finite_double (Fin a)"
  shows "rn a = a"
  using assms by (simp add: rnd_def Let_def split: if_splits)

lemma fmod_exact:
  assumes "rn a = a" "0 \<le> a"
  defines "r \<equiv> a - 360 * of_int \<lfloor>a / 360\<rfloor>"
  shows "rn r = r"
proof (cases "a < 360")
  case True
  then have "\<lfloor>a / 360\<rfloor> = 0" using assms(2) by (simp add: floor_eq_iff)
  then show ?thesis using assms(1) by (simp add: r_def)
next
  case False
  then have a360: "360 \<le> a" by simp
  then have nz: "a \<noteq> 0" by simp
  define u where "u = ulp_exp a"
  define M where "M = round_even (a / 2 powi u)"
  have aM: "a = of_int M * 2 powi u"
    using assms(1) nz by (simp add: rn_def u_def M_def)
  have "(2::rat) powi 8 \<le> a" using a360 by simp
  moreover have "a < 2 powi (ilog2 a + 1)"
    using ilog2_bounds(2) [OF nz] assms(2) by simp
  ultimately have "8 \<le> ilog2 a" by (rule pow2_exp_less)
  then have u44: "- 44 \<le> u" by (simp add: u_def ulp_exp_def)
  define v where "v = min u 3"
  define d1 where "d1 = nat (u - v)"
  define d2 where "d2 = nat (3 - v)"
  have u: "u = v + int d1" and three: "3 = v + int d2"
    by (simp_all add: v_def d1_def d2_def)
  have v44: "- 44 \<le> v" using u44 by (simp add: v_def)
  define fl where "fl = \<lfloor>a / 360\<rfloor>"
  define K where "K = M * 2 ^ d1 - 45 * 2 ^ d2 * fl"
  have a': "a = of_int (M * 2 ^ d1) * 2 powi v"
    by (subst aM) (simp add: u power_int_add)
  have "(360::rat) = 45 * 2 powi 3" by simp
  also have "\<dots> = of_int (45 * 2 ^ d2) * 2 powi v"
    by (subst three) (simp add: power_int_add)
  finally have c360: "(360::rat) = of_int (45 * 2 ^ d2) * 2 powi v" .
  have "r = a - 360 * of_int fl" by (simp add: r_def fl_def)
  also have "\<dots> = of_int (M * 2 ^ d1) * 2 powi v - of_int (45 * 2 ^ d2) * 2 powi v * of_int fl"
    using a' c360 by simp
  also have "\<dots> = of_int K * 2 powi v"
    by (simp add: K_def algebra_simps)
  finally have rK: "r = of_int K * 2 powi v" .
  have fb: "of_int fl \<le> a / 360" "a / 360 < of_int fl + 1"
    unfolding fl_def by linarith+
  have rb: "0 \<le> r" "r < 360"
    using fb unfolding r_def fl_def [symmetric] by linarith+
  have pv: "(0::rat) < 2 powi v" by simp
  have "of_int \<bar>K\<bar> * 2 powi v = \<bar>r\<bar>"
    by (simp add: rK abs_mult)
  also have "\<dots> < 360" using rb by simp
  finally have "(of_int \<bar>K\<bar> :: rat) < 360 / 2 powi v"
    using pv by (simp add: pos_less_divide_eq)
  also have "\<dots> = 360 * 2 powi (- v)"
    by (simp add: power_int_minus field_simps)
  also have "\<dots> \<le> 360 * 2 powi 44"
    using v44 by (intro mult_left_mono power_int_increasing) simp_all
  also have "\<dots> = of_int (360 * 2 ^ 44)" by simp
  finally have "\<bar>K\<bar> < 360 * 2 ^ 44" by (simp only: of_int_less_iff)
  then have K53: "\<bar>K\<bar> < 2 ^ 53" by simp
  show ?thesis
    using rK K53 by (rule rn_fix) (use v44 in simp)
qed

lemma float_rem_repr:
  assumes "finite_double (Fin a)"
  shows "float_rem (Fin a) (Fin 360) = Inr (Fin (rn (a - 360 * of_int \<lfloor>a / 360\<rfloor>)))"
proof -
  have rna: "rn a = a" using assms by (rule finite_double_rn)
  define fl where "fl = \<lfloor>a / 360\<rfloor>"
  define r where "r = a - 360 * of_int fl"
  have fb: "of_int fl \<le> a / 360" "a / 360 < of_int fl + 1"
    unfolding fl_def by linarith+
  have rb: "0 \<le> r" "r < 360"
    using fb unfolding r_def by linarith+
  show ?thesis
  proof (cases "0 \<le> a")
    case True
    then have "trunc (a / 360) = fl" by (simp add: trunc_def fl_def)
    then have fm: "c_fmod (Fin a) (Fin 360) = Fin r" by (simp add: r_def)
    have "rn r = r"
      using fmod_exact [OF rna True] by (simp add: r_def fl_def)
    then show ?thesis
      unfolding float_rem_def fm fl_def [symmetric] r_def [symmetric]
      using rb by (auto simp add: Let_def rn_0)
  next
    case False
    then have tr: "trunc (a / 360) = \<lceil>a / 360\<rceil>" by (simp add: trunc_def)
    show ?thesis
    proof (cases "a / 360 = of_int fl")
      case True
      then have "\<lceil>a / 360\<rceil> = fl" by (metis ceiling_of_int)
      then have fm: "c_fmod (Fin a) (Fin 360) = Fin r" by (simp add: r_def tr)
      have "r = 0" using True by (simp add: r_def)
      then show ?thesis
        unfolding float_rem_def fm fl_def [symmetric] r_def [symmetric]
        by (simp add: rn_0)
    next
      case False
      then have "\<lceil>a / 360\<rceil> = fl + 1"
        by (simp add: ceiling_altdef fl_def)
      then have fm: "c_fmod (Fin a) (Fin 360) = Fin (r - 360)"
        by (simp add: r_def tr algebra_simps)
      have "r \<noteq> 0" using False by (auto simp add: r_def)
      then have neg: "r - 360 \<noteq> 0" "r - 360 < 0" using rb by simp_all
      have "0 \<le> r" "r \<le> 360" using rb by simp_all
      from rnd_between [OF this rn_0 rn_360]
      have "rnd r = Fin (rn r)" by simp
      then show ?thesis
        unfolding float_rem_def fm fl_def [symmetric] r_def [symmetric]
        using neg by (simp add: Let_def)
    qed
  qed
qed

lemma finite_double_int:
  assumes "\<bar>m\<bar> < 2 ^ 53"
  shows "finite_double (Fin (of_int m))"
proof -
  have "rn (of_int m) = of_int m"
    by (rule rn_fix [where m = m and q = 0]) (use assms in simp_all)
  moreover have "\<bar>of_int m :: rat\<bar> < of_int (2 ^ 53)"
    using assms by (simp only: of_int_less_iff flip: of_int_abs)
  then have "- (2 powi 1024) < (of_int m :: rat)" "(of_int m :: rat) < 2 powi 1024"
    by simp_all
  ultimately show ?thesis by (simp add: rnd_fix)
qed

section \<open>Matching the wind direction\<close>

lemma lower_char_small:
  assumes "d \<in> set ''abcdefghijklmnopqrstuvwxyz''"
  shows "(lower_char c = d) = ci_char c d"
  using assms
  apply (simp add: lower_char_def ci_char_def upper_table_def)
  apply (elim disjE; simp; blast?)
  done

lemma lower_eq_iff:
  assumes "set t \<subseteq> set ''abcdefghijklmnopqrstuvwxyz''"
  shows "(lower s = t) = ci_match s t"
  using assms
proof (induction s arbitrary: t)
  case Nil
  then show ?case by (auto simp add: lower_def ci_match_def)
next
  case (Cons c s)
  show ?case
  proof (cases t)
    case Nil
    then show ?thesis by (simp add: lower_def ci_match_def)
  next
    case (Cons d t')
    with Cons.prems have d: "d \<in> set ''abcdefghijklmnopqrstuvwxyz''"
      and t': "set t' \<subseteq> set ''abcdefghijklmnopqrstuvwxyz''"
      by simp_all
    have "(lower s = t') = ci_match s t'" using t' by (rule Cons.IH)
    then show ?thesis
      using lower_char_small [OF d, of c]
      by (simp add: Cons lower_def ci_match_def)
  qed
qed

lemma lower_headwind: "(lower s = ''headwind'') = ci_match s ''headwind''"
  by (rule lower_eq_iff) simp

lemma lower_tailwind: "(lower s = ''tailwind'') = ci_match s ''tailwind''"
  by (rule lower_eq_iff) simp

lemma not_both: "\<not> (ci_match s ''headwind'' \<and> ci_match s ''tailwind'')"
  by (auto simp flip: lower_headwind lower_tailwind)

section \<open>The paths through the calculation\<close>

lemma calculate_steps_headwind:
  assumes "lower wd = ''headwind''" "calculate_angle_factor angle = Inr f"
    "fl_div (Fin 180) f = Inr s2" "fl_div (fl_mul distance wind) s2 = Inr s3"
  shows "calculate_steps F distance wind angle wd =
    Inr (trace_dict F distance wind (Fin 180) '' + '' (fl_mul distance wind) f s2 s3
          (fl_add distance s3))"
  by (simp add: calculate_steps_def Let_def trace_dict_def assms)

lemma calculate_steps_tailwind:
  assumes "lower wd = ''tailwind''" "calculate_angle_factor angle = Inr f"
    "fl_div (Fin 225) f = Inr s2" "fl_div (fl_mul distance wind) s2 = Inr s3"
  shows "calculate_steps F distance wind angle wd =
    Inr (trace_dict F distance wind (Fin 225) '' - '' (fl_mul distance wind) f s2 s3
          (fl_sub distance s3))"
  by (simp add: calculate_steps_def Let_def trace_dict_def assms)

lemma calculate_steps_invalid:
  assumes "lower wd \<noteq> ''headwind''" "lower wd \<noteq> ''tailwind''"
    "calculate_angle_factor angle = Inr f"
  shows "calculate_steps F distance wind angle wd =
    Inr [(''error'', PStr ''Invalid wind direction. Please use 'headwind' or 'tailwind'.'')]"
  by (simp add: calculate_steps_def Let_def assms)

text \<open>An angle that is not finite makes the factor NaN; nothing raises.\<close>

lemma float_rem_nonfinite:
  assumes "angle = PInf \<or> angle = NInf \<or> angle = NaN"
  shows "float_rem angle (Fin 360) = Inr NaN"
  using assms by (auto simp add: float_rem_def Let_def)

lemma angle_factor_nonfinite:
  assumes "angle = PInf \<or> angle = NInf \<or> angle = NaN"
  shows "calculate_angle_factor angle = Inr NaN"
  unfolding calculate_angle_factor_def float_rem_nonfinite [OF assms]
  by (simp add: fourth_quadrant_def lit_0_1_val)

lemma angle_factor_cases:
  obtains "calculate_angle_factor angle = Inr NaN"
  | f where "calculate_angle_factor angle = Inr (Fin f)" "factor_min \<le> f" "f \<le> 1"
proof (cases angle)
  case (Fin a)
  from angle_factor_bounds [of a] obtain f
    where "calculate_angle_factor (Fin a) = Inr (Fin f)" "factor_min \<le> f" "f \<le> 1"
    by (rule returns_withinE)
  then show ?thesis using that(2) Fin by simp
qed (use that(1) angle_factor_nonfinite in simp_all)

lemma factor_min_pos: "0 < factor_min" by (simp add: factor_min_def)

lemma rn_2251: "rn 2251 = 2251" by (rule rn_fix [where m = 2251 and q = 0]) simp_all
lemma rn_180: "rn 180 = 180" by (rule rn_fix [where m = 180 and q = 0]) simp_all
lemma rn_225: "rn 225 = 225" by (rule rn_fix [where m = 225 and q = 0]) simp_all

lemma step_2_finite:
  assumes "factor_min \<le> f" "f \<le> 1" "rn D = D" "0 < D" "D \<le> 225"
  shows "\<exists>q. fl_div (Fin D) (Fin f) = Inr (Fin q) \<and> D \<le> q \<and> q \<le> 2251"
proof -
  have fpos: "0 < f" using assms(1) factor_min_pos by linarith
  have lo: "D \<le> D / f"
    using fpos assms(2,4) by (simp add: pos_le_divide_eq mult_left_le)
  have "D / f \<le> 225 / factor_min"
    using assms(1,4,5) fpos factor_min_pos by (intro frac_le) simp_all
  also have "\<dots> \<le> 2251" by (simp add: factor_min_def)
  finally have hi: "D / f \<le> 2251" .
  from assms(4) have "- (2 powi 1024) < D" 
    by (simp add: less_le_trans [of _ 0])
  from rnd_between [OF lo hi assms(3) rn_2251 this]
  show ?thesis using fpos by simp
qed

lemma step_3_total:
  assumes "s2 = NaN \<or> (\<exists>q. s2 = Fin q \<and> 0 < q)"
  shows "\<exists>s3. fl_div x s2 = Inr s3"
  using assms by (cases x) auto

lemma divisions_total:
  assumes "D = 180 \<or> D = 225"
  shows "\<exists>f s2 s3. calculate_angle_factor angle = Inr f \<and> fl_div (Fin D) f = Inr s2
    \<and> fl_div x s2 = Inr s3"
proof (cases angle rule: angle_factor_cases)
  case 1
  moreover have "fl_div (Fin D) NaN = Inr NaN" by simp
  moreover obtain s3 where "fl_div x NaN = Inr s3"
    using step_3_total [of NaN x] by auto
  ultimately show ?thesis by blast
next
  case (2 f)
  have D: "rn D = D" "0 < D" "D \<le> 225"
    using assms rn_180 rn_225 by auto
  from step_2_finite [OF 2(2,3) D] obtain q
    where q: "fl_div (Fin D) (Fin f) = Inr (Fin q)" "D \<le> q"
    by blast
  then have "0 < q" using D(2) by linarith
  then obtain s3 where "fl_div x (Fin q) = Inr s3"
    using step_3_total [of "Fin q" x] by auto
  with 2(1) q(1) show ?thesis by blast
qed

lemma calculate_steps_lower:
  assumes "lower wd = lower wd'"
  shows "calculate_steps F distance wind angle wd = calculate_steps F distance wind angle wd'"
  unfolding calculate_steps_def assms by (rule refl)

lemma rnd_int:
  assumes "\<bar>m\<bar> < 2 ^ 53"
  shows "rnd (of_int m) = Fin (of_int m)"
  using finite_double_int [OF assms] by simp

lemma rnd_1545: "rnd 1545 = Fin 1545" using rnd_int [of 1545] by simp
lemma rnd_180: "rnd 180 = Fin 180" using rnd_int [of 180] by simp
lemma rnd_225: "rnd 225 = Fin 225" using rnd_int [of 225] by simp

lemma step_3_head: "rnd (1545 / 180) = Fin (4831987100199595 / 562949953421312)"
proof (rule rnd_eval)
  show "rn (1545 / 180) = 4831987100199595 / 562949953421312"
    by (subst rn_eval [where e = 3]) (simp_all add: round_even_def Let_def floor_rat_numeral)
qed simp_all

lemma adjusted_head:
  "rnd (103 + 4831987100199595 / 562949953421312) = Fin (7851979037824341 / 70368744177664)"
proof (rule rnd_eval)
  show "rn (103 + 4831987100199595 / 562949953421312) = 7851979037824341 / 70368744177664"
    by (subst rn_eval [where e = 6]) (simp_all add: round_even_def Let_def floor_rat_numeral)
qed simp_all

lemma step_3_tail: "rnd (1545 / 225) = Fin (7731179360319351 / 1125899906842624)"
proof (rule rnd_eval)
  show "rn (1545 / 225) = 7731179360319351 / 1125899906842624"
    by (subst rn_eval [where e = 2]) (simp_all add: round_even_def Let_def floor_rat_numeral)
qed simp_all

lemma adjusted_tail:
  "rnd (103 - 7731179360319351 / 1125899906842624) = Fin (6764781940279433 / 70368744177664)"
proof (rule rnd_eval)
  show "rn (103 - 7731179360319351 / 1125899906842624) = 6764781940279433 / 70368744177664"
    by (subst rn_eval [where e = 6]) (simp_all add: round_even_def Let_def floor_rat_numeral)
qed simp_all

lemma steps_example_headwind:
  assumes "lower wd = ''headwind''"
  shows "calculate_steps F (Fin 103) (Fin 15) (Fin 0) wd =
    Inr (trace_dict F (Fin 103) (Fin 15) (Fin 180) '' + '' (Fin 1545) (Fin 1) (Fin 180)
          (Fin (4831987100199595 / 562949953421312))
          (Fin (7851979037824341 / 70368744177664)))"
proof -
  have m: "fl_mul (Fin 103) (Fin 15) = Fin 1545" by (simp add: rnd_1545)
  have "calculate_steps F (Fin 103) (Fin 15) (Fin 0) wd =
    Inr (trace_dict F (Fin 103) (Fin 15) (Fin 180) '' + '' (fl_mul (Fin 103) (Fin 15))
          (Fin 1) (Fin 180) (Fin (4831987100199595 / 562949953421312))
          (fl_add (Fin 103) (Fin (4831987100199595 / 562949953421312))))"
    using assms angle_factor_0
  proof (rule calculate_steps_headwind)
    show "fl_div (Fin 180) (Fin 1) = Inr (Fin 180)" by (simp add: rnd_180)
    show "fl_div (fl_mul (Fin 103) (Fin 15)) (Fin 180) =
        Inr (Fin (4831987100199595 / 562949953421312))"
      unfolding m using step_3_head by simp
  qed
  then show ?thesis
    unfolding m using adjusted_head by simp
qed

lemma steps_example_tailwind:
  assumes "lower wd = ''tailwind''"
  shows "calculate_steps F (Fin 103) (Fin 15) (Fin 0) wd =
    Inr (trace_dict F (Fin 103) (Fin 15) (Fin 225) '' - '' (Fin 1545) (Fin 1) (Fin 225)
          (Fin (7731179360319351 / 1125899906842624))
          (Fin (6764781940279433 / 70368744177664)))"
proof -
  have m: "fl_mul (Fin 103) (Fin 15) = Fin 1545" by (simp add: rnd_1545)
  have "calculate_steps F (Fin 103) (Fin 15) (Fin 0) wd =
    Inr (trace_dict F (Fin 103) (Fin 15) (Fin 225) '' - '' (fl_mul (Fin 103) (Fin 15))
          (Fin 1) (Fin 225) (Fin (7731179360319351 / 1125899906842624))
          (fl_sub (Fin 103) (Fin (7731179360319351 / 1125899906842624))))"
    using assms angle_factor_0
  proof (rule calculate_steps_tailwind)
    show "fl_div (Fin 225) (Fin 1) = Inr (Fin 225)" by (simp add: rnd_225)
    show "fl_div (fl_mul (Fin 103) (Fin 15)) (Fin 225) =
        Inr (Fin (7731179360319351 / 1125899906842624))"
      unfolding m using step_3_tail by simp
  qed
  then show ?thesis
    unfolding m using adjusted_tail by simp
qed

lemma lower_literals:
  "lower ''headwind'' = ''headwind''" "lower ''tailwind'' = ''tailwind''"
  "lower ''HeadWind'' = ''headwind''" "lower ''TAILWIND'' = ''tailwind''"
  by (simp_all add: lower_def lower_char_def upper_table_def)

lemma trace_dict_not_failure:
  "\<not> is_failure (Inr (trace_dict F d w D sg s1 f s2 s3 adj))"
  by (simp add: trace_dict_def)

lemma trace_dict_no_error:
  "map_of (trace_dict F d w D sg s1 f s2 s3 adj) ''error'' = None"
  by (simp add: trace_dict_def)

lemma trace_dict_step_4:
  "map_of (trace_dict F d w D sg s1 f s2 s3 adj) ''step_4'' =
     Some (PDict [(''formula'', PStr (fmt_str F d @ sg @ fmt_4f F s3)), (''result'', PFloat adj)])"
  "map_of (trace_dict F d w D sg s1 f s2 s3 adj) ''adjusted_distance'' = Some (PFloat adj)"
  by (simp_all add: trace_dict_def)

text \<open>The three outcomes of a call.\<close>

lemma calculate_steps_cases:
  obtains
    (head) f s2 s3 where "ci_match wd ''headwind''" "calculate_angle_factor angle = Inr f"
      "fl_div (Fin 180) f = Inr s2" "fl_div (fl_mul distance wind) s2 = Inr s3"
      "calculate_steps F distance wind angle wd =
        Inr (trace_dict F distance wind (Fin 180) '' + '' (fl_mul distance wind) f s2 s3
              (fl_add distance s3))"
  | (tail) f s2 s3 where "ci_match wd ''tailwind''" "calculate_angle_factor angle = Inr f"
      "fl_div (Fin 225) f = Inr s2" "fl_div (fl_mul distance wind) s2 = Inr s3"
      "calculate_steps F distance wind angle wd =
        Inr (trace_dict F distance wind (Fin 225) '' - '' (fl_mul distance wind) f s2 s3
              (fl_sub distance s3))"
  | (invalid) "\<not> valid_direction wd"
      "calculate_steps F distance wind angle wd =
        Inr [(''error'', PStr ''Invalid wind direction. Please use 'headwind' or 'tailwind'.'')]"
proof -
  consider "lower wd = ''headwind''" | "lower wd = ''tailwind''"
    | "lower wd \<noteq> ''headwind''" "lower wd \<noteq> ''tailwind''"
    by blast
  then show ?thesis
  proof cases
    case 1
    from divisions_total [of 180 angle "fl_mul distance wind"] obtain f s2 s3
      where *: "calculate_angle_factor angle = Inr f" "fl_div (Fin 180) f = Inr s2"
        "fl_div (fl_mul distance wind) s2 = Inr s3"
      by auto
    show ?thesis
      using 1 * calculate_steps_headwind [OF 1 *, of F]
      by (intro head [of f s2 s3]) (simp_all add: lower_headwind)
  next
    case 2
    from divisions_total [of 225 angle "fl_mul distance wind"] obtain f s2 s3
      where *: "calculate_angle_factor angle = Inr f" "fl_div (Fin 225) f = Inr s2"
        "fl_div (fl_mul distance wind) s2 = Inr s3"
      by auto
    show ?thesis
      using 2 * calculate_steps_tailwind [OF 2 *, of F]
      by (intro tail [of f s2 s3]) (simp_all add: lower_tailwind)
  next
    case 3
    from divisions_total [of 180 angle "fl_mul distance wind"] obtain f
      where "calculate_angle_factor angle = Inr f"
      by auto
    from calculate_steps_invalid [OF 3 this, of F distance wind] 3
    show ?thesis
      by (intro invalid) (simp_all add: valid_direction_def lower_headwind lower_tailwind)
  qed
qed

section \<open>The angle factor at a rounded sum\<close>

lemma rnd_at:
  assumes "2 powi e \<le> \<bar>x\<bar>" "\<bar>x\<bar> < 2 powi (e + 1)" "- 1022 \<le> e"
    "of_int (round_even (x / 2 powi (e - 52))) * 2 powi (e - 52) = r"
    "- (2 powi 1024) < r" "r < 2 powi 1024"
  shows "rnd x = Fin r"
  using rn_eval [OF assms(1-3)] assms(4-6) by (simp add: rnd_def Let_def)

lemma float_rem_one_turn:
  assumes "360 \<le> a" "a < 720"
  shows "float_rem (Fin a) (Fin 360) = Inr (Fin (a - 360))"
proof -
  have "\<lfloor>a / 360\<rfloor> = 1" using assms by (simp add: floor_eq_iff)
  then have "trunc (a / 360) = 1" using assms by (simp add: trunc_def)
  then show ?thesis using assms by (simp add: float_rem_def Let_def)
qed

lemma first_quadrant_steps:
  assumes "rnd (n / 90) = Fin t" "rnd (t * d_0_9) = Fin p" "rnd (1 - p) = Fin f"
  shows "first_quadrant (Fin n) = Inr (Fin f)"
  unfolding first_quadrant_def lit_0_9_val using assms by simp

lemma rounded_sum: "fl_add (Fin d_0_1) (fl_mul (Fin 360) (Fin 1)) = Fin (3167473097297101 / 8796093022208)"
proof -
  have "rnd (d_0_1 + 360) = Fin (3167473097297101 / 8796093022208)"
    by (rule rnd_at [where e = 8])
      (simp_all add: d_0_1_def round_even_def Let_def floor_rat_numeral)
  then show ?thesis using rnd_int [of 360] by simp
qed

lemma angle_factor_tenth:
  "calculate_angle_factor (Fin d_0_1) = Inr (Fin (8998192055486251 / 9007199254740992))"
proof -
  define t :: rat where "t = 5124095576030431 / 4611686018427387904"
  define p :: rat where "p = 1152921504606847 / 1152921504606846976"
  have n: "float_rem (Fin d_0_1) (Fin 360) = Inr (Fin d_0_1)"
    by (rule float_rem_small) (simp_all add: d_0_1_def)
  have "first_quadrant (Fin d_0_1) = Inr (Fin (8998192055486251 / 9007199254740992))"
  proof (rule first_quadrant_steps)
    show "rnd (d_0_1 / 90) = Fin t"
      by (rule rnd_at [where e = "- 10"])
        (simp_all add: d_0_1_def t_def round_even_def Let_def floor_rat_numeral)
    show "rnd (t * d_0_9) = Fin p"
      by (rule rnd_at [where e = "- 10"])
        (simp_all add: d_0_9_def t_def p_def round_even_def Let_def floor_rat_numeral)
    show "rnd (1 - p) = Fin (8998192055486251 / 9007199254740992)"
      by (rule rnd_at [where e = "- 1"])
        (simp_all add: p_def round_even_def Let_def floor_rat_numeral)
  qed
  then show ?thesis
    unfolding calculate_angle_factor_def n by (simp add: d_0_1_def)
qed

lemma angle_factor_tenth_plus_turn:
  "calculate_angle_factor (Fin (3167473097297101 / 8796093022208))
     = Inr (Fin (8998192055486249 / 9007199254740992))"
proof -
  define n :: rat where "n = 879609302221 / 8796093022208"
  define t :: rat where "t = 1281023894007899 / 1152921504606846976"
  define p :: rat where "p = 4611686018428437 / 4611686018427387904"
  have "float_rem (Fin (3167473097297101 / 8796093022208)) (Fin 360)
      = Inr (Fin (3167473097297101 / 8796093022208 - 360))"
    by (rule float_rem_one_turn) simp_all
  then have n: "float_rem (Fin (3167473097297101 / 8796093022208)) (Fin 360) = Inr (Fin n)"
    by (simp add: n_def)
  have "first_quadrant (Fin n) = Inr (Fin (8998192055486249 / 9007199254740992))"
  proof (rule first_quadrant_steps)
    show "rnd (n / 90) = Fin t"
      by (rule rnd_at [where e = "- 10"])
        (simp_all add: n_def t_def round_even_def Let_def floor_rat_numeral)
    show "rnd (t * d_0_9) = Fin p"
      by (rule rnd_at [where e = "- 10"])
        (simp_all add: d_0_9_def t_def p_def round_even_def Let_def floor_rat_numeral)
    show "rnd (1 - p) = Fin (8998192055486249 / 9007199254740992)"
      by (rule rnd_at [where e = "- 1"])
        (simp_all add: p_def round_even_def Let_def floor_rat_numeral)
  qed
  then show ?thesis
    unfolding calculate_angle_factor_def n by (simp add: n_def)
qed

section \<open>The claims\<close>

text \<open>
  Claim C2, as stated: for every angle, \<^verbatim>\<open>calculate_angle_factor(angle)\<close> lies in the
  closed interval from 0.1 to 1.0. It fails at 90 degrees, where the first branch computes
  \<^verbatim>\<open>1 - (90 / 90) * (1 - 0.1)\<close>, the double \<^verbatim>\<open>0.09999999999999998\<close>, which is below one
  tenth (and below the double \<^verbatim>\<open>0.1\<close>).
\<close>

theorem angle_factor_below_tenth_at_90:
  "\<not> returns_within (1 / 10) 1 (calculate_angle_factor (Fin 90))"
  by (simp add: angle_factor_90 factor_min_def)

text \<open>
  Claim C2, amended: for every finite angle, \<^verbatim>\<open>calculate_angle_factor(angle)\<close> returns a
  finite double between \<open>factor_min\<close>, the double \<^verbatim>\<open>1 - 0.9\<close> that lies \<open>2 powi - 55\<close>
  below the double \<^verbatim>\<open>0.1\<close>, and 1.0. The lower bound is attained at 90 degrees.
\<close>

theorem angle_factor_range:
  "returns_within factor_min 1 (calculate_angle_factor (Fin angle))"
proof -
  from float_rem_bounds obtain n
    where n: "float_rem (Fin angle) (Fin 360) = Inr (Fin n)" "0 \<le> n" "n \<le> 360"
    by blast
  consider "n \<le> 90" | "90 < n" "n \<le> 180" | "180 < n" "n \<le> 270" | "270 < n"
    by linarith
  then show ?thesis
  proof cases
    case 1
    with n(2) have "returns_within factor_min 1 (first_quadrant (Fin n))"
      by (intro first_quadrant_bounds)
    with 1 n(2) show ?thesis
      by (simp add: calculate_angle_factor_def n(1))
  next
    case 2
    then have "returns_within factor_min 1 (second_quadrant (Fin n))"
      by (intro second_quadrant_bounds) simp_all
    with 2 show ?thesis
      by (simp add: calculate_angle_factor_def n(1))
  next
    case 3
    then have "returns_within factor_min 1 (third_quadrant (Fin n))"
      by (intro third_quadrant_bounds) simp_all
    with 3 show ?thesis
      by (simp add: calculate_angle_factor_def n(1))
  next
    case 4
    with n(3) have "returns_within factor_min 1 (fourth_quadrant (Fin n))"
      by (intro fourth_quadrant_bounds) simp_all
    with 4 show ?thesis
      by (simp add: calculate_angle_factor_def n(1))
  qed
qed

text \<open>
  Claim C5, as stated: for every angle and every integer \<open>k\<close>, the factor at \<open>angle\<close>
  equals the factor at \<open>angle + 360 * k\<close>. It fails for the double \<^verbatim>\<open>0.1\<close> and \<open>k = 1\<close>:
  the sum \<^verbatim>\<open>0.1 + 360 * 1\<close> is not a double and rounds to \<^verbatim>\<open>360.1\<close>, whose remainder
  modulo 360 is \<^verbatim>\<open>0.10000000000002274\<close>; the factor there is \<^verbatim>\<open>0.9989999999999998\<close>,
  and the factor at \<^verbatim>\<open>0.1\<close> is \<^verbatim>\<open>0.999\<close>.
\<close>

theorem rounded_sum_breaks_period:
  "finite_double (Fin d_0_1)
   \<and> fl_add (Fin d_0_1) (fl_mul (Fin 360) (Fin 1)) = Fin (3167473097297101 / 8796093022208)
   \<and> calculate_angle_factor (Fin d_0_1) = Inr (Fin (8998192055486251 / 9007199254740992))
   \<and> calculate_angle_factor (Fin (3167473097297101 / 8796093022208))
       = Inr (Fin (8998192055486249 / 9007199254740992))
   \<and> calculate_angle_factor (Fin d_0_1)
       \<noteq> calculate_angle_factor (fl_add (Fin d_0_1) (fl_mul (Fin 360) (Fin 1)))"
  by (simp add: rnd_d_0_1 angle_factor_tenth angle_factor_tenth_plus_turn
      rounded_sum [simplified])

text \<open>
  Claim C5, amended: \<^verbatim>\<open>calculate_angle_factor\<close> is periodic with period 360 on the
  doubles. For every double \<open>angle\<close>, negative angles and angles of 360 and more
  included, and every integer \<open>k\<close> for which \<open>angle + 360 * k\<close> is a double as well, the
  factor at \<open>angle\<close> equals the factor at \<open>angle + 360 * k\<close>.
\<close>

theorem angle_factor_periodic:
  assumes "finite_double (Fin a)" "finite_double (Fin (a + 360 * of_int k))"
  shows "calculate_angle_factor (Fin a) = calculate_angle_factor (Fin (a + 360 * of_int k))"
proof -
  have "(a + 360 * of_int k) / 360 = a / 360 + of_int k"
    by (simp add: add_divide_distrib)
  then have "\<lfloor>(a + 360 * of_int k) / 360\<rfloor> = \<lfloor>a / 360 + of_int k\<rfloor>"
    by (simp only:)
  then have "\<lfloor>(a + 360 * of_int k) / 360\<rfloor> = \<lfloor>a / 360\<rfloor> + k"
    by (simp only: floor_add_int)
  then have eq: "a + 360 * of_int k - 360 * of_int \<lfloor>(a + 360 * of_int k) / 360\<rfloor>
      = a - 360 * of_int \<lfloor>a / 360\<rfloor>"
    by (simp add: algebra_simps)
  have "float_rem (Fin (a + 360 * of_int k)) (Fin 360) = float_rem (Fin a) (Fin 360)"
    unfolding float_rem_repr [OF assms(1)] float_rem_repr [OF assms(2)] eq ..
  then show ?thesis by (simp add: calculate_angle_factor_def)
qed

theorem angle_factor_periodic_witness:
  "finite_double (Fin (- 90)) \<and> finite_double (Fin (- 90 + 360 * of_int 2))
   \<and> calculate_angle_factor (Fin (- 90)) = calculate_angle_factor (Fin (- 90 + 360 * of_int 2))"
proof -
  have a: "finite_double (Fin (- 90))"
    using finite_double_int [of "- 90"] by simp
  have b: "finite_double (Fin (- 90 + 360 * of_int 2))"
    using finite_double_int [of 630] by simp
  show ?thesis
    using a b angle_factor_periodic [OF a b] by simp
qed

text \<open>
  Claim C6: \<^verbatim>\<open>calculate_angle_factor\<close> returns 1.0 at 0 and at 180 degrees, and 0.1 at 90
  and at 270 degrees, each within a tolerance of \<open>1 / 10 ^ 9\<close>. The values at 0 and 180
  are exactly 1.0; the value at 90 and 270 is the double \<^verbatim>\<open>1 - 0.9\<close>.
\<close>

theorem angle_factor_cardinal_values:
  "calculate_angle_factor (Fin 0) = Inr (Fin 1)
   \<and> calculate_angle_factor (Fin 90) = Inr (Fin factor_min)
   \<and> calculate_angle_factor (Fin 180) = Inr (Fin 1)
   \<and> calculate_angle_factor (Fin 270) = Inr (Fin factor_min)
   \<and> \<bar>factor_min - 1 / 10\<bar> \<le> 1 / 10 ^ 9"
  by (simp add: angle_factor_0 angle_factor_90 angle_factor_180 angle_factor_270 factor_min_def)

text \<open>
  Claim C7, as stated: at each quadrant boundary the two adjacent formulas agree on the
  boundary value. At 90 degrees they do not: the first branch gives \<^verbatim>\<open>1 - 1.0 * 0.9\<close>, the
  double \<^verbatim>\<open>0.09999999999999998\<close>, and the second gives \<^verbatim>\<open>0.1 + 0.0 * 0.9\<close>, the double
  \<^verbatim>\<open>0.1\<close>.
\<close>

theorem quadrant_formulas_differ_at_90:
  "first_quadrant (Fin 90) \<noteq> second_quadrant (Fin 90)"
  by (simp add: first_quadrant_90 second_quadrant_90 factor_min_def d_0_1_def)

text \<open>
  Claim C7, amended: every quadrant is closed at its upper end, so that the boundary
  angles 90, 180 and 270 are evaluated by the formula of the lower quadrant, and 360
  wraps to 0 and the first formula. The adjacent formulas agree exactly at 180 and at the
  wrap from 360 to 0; at 90 and at 270 the lower formula gives the double \<^verbatim>\<open>1 - 0.9\<close>
  and the upper one the double \<^verbatim>\<open>0.1\<close>, which differ by \<open>1 / 2 ^ 55\<close>, less than
  \<open>1 / 10 ^ 9\<close>.
\<close>

theorem quadrant_boundaries:
  assumes "0 \<le> n" "n < 360"
  shows "calculate_angle_factor (Fin n) =
      (if n \<le> 90 then first_quadrant (Fin n)
       else if n \<le> 180 then second_quadrant (Fin n)
       else if n \<le> 270 then third_quadrant (Fin n)
       else fourth_quadrant (Fin n))
   \<and> calculate_angle_factor (Fin 360) = first_quadrant (Fin 0)
   \<and> second_quadrant (Fin 180) = third_quadrant (Fin 180)
   \<and> fourth_quadrant (Fin 360) = first_quadrant (Fin 0)
   \<and> first_quadrant (Fin 90) = Inr (Fin factor_min)
   \<and> second_quadrant (Fin 90) = Inr (Fin d_0_1)
   \<and> third_quadrant (Fin 270) = Inr (Fin factor_min)
   \<and> fourth_quadrant (Fin 270) = Inr (Fin d_0_1)
   \<and> d_0_1 - factor_min = 1 / 2 ^ 55
   \<and> \<bar>d_0_1 - factor_min\<bar> \<le> 1 / 10 ^ 9"
proof -
  have "calculate_angle_factor (Fin n) =
      (if n \<le> 90 then first_quadrant (Fin n)
       else if n \<le> 180 then second_quadrant (Fin n)
       else if n \<le> 270 then third_quadrant (Fin n)
       else fourth_quadrant (Fin n))"
    using assms by (simp add: calculate_angle_factor_def float_rem_small)
  moreover have "d_0_1 - factor_min = 1 / 2 ^ 55"
    by (simp add: factor_min_def d_0_1_def)
  ultimately show ?thesis
    by (simp add: angle_factor_360 first_quadrant_0 first_quadrant_90 second_quadrant_90
        second_quadrant_180 third_quadrant_180 third_quadrant_270 fourth_quadrant_270
        fourth_quadrant_360)
qed

theorem quadrant_boundaries_witness:
  "(0::rat) \<le> 90 \<and> (90::rat) < 360
   \<and> calculate_angle_factor (Fin 90) = first_quadrant (Fin 90)
   \<and> calculate_angle_factor (Fin 180) = second_quadrant (Fin 180)
   \<and> calculate_angle_factor (Fin 270) = third_quadrant (Fin 270)
   \<and> first_quadrant (Fin 90) = Inr (Fin factor_min)
   \<and> second_quadrant (Fin 90) = Inr (Fin d_0_1)"
  using quadrant_boundaries [of 90] quadrant_boundaries [of 180] quadrant_boundaries [of 270]
  by simp

text \<open>
  Claim C1: for finite distance, wind and angle and a direction that matches
  \<^verbatim>\<open>headwind\<close> or \<^verbatim>\<open>tailwind\<close> case-insensitively, \<^verbatim>\<open>calculate_steps\<close> returns the
  trace whose entries are \<open>step_1 = distance * wind\<close>, the angle factor of the angle, the
  divisor (180 for headwind, 225 for tailwind), \<open>step_2 = divisor / factor\<close>,
  \<open>step_3 = step_1 / step_2\<close> and the adjusted distance, \<open>distance + step_3\<close> for
  headwind and \<open>distance - step_3\<close> for tailwind; none of the divisions raises.
\<close>

theorem calculate_steps_trace:
  "(ci_match wd ''headwind'' \<longrightarrow>
      (\<exists>f s2 s3.
         calculate_angle_factor (Fin a) = Inr f
         \<and> fl_div (Fin 180) f = Inr s2
         \<and> fl_div (fl_mul (Fin d) (Fin w)) s2 = Inr s3
         \<and> calculate_steps F (Fin d) (Fin w) (Fin a) wd =
             Inr (trace_dict F (Fin d) (Fin w) (Fin 180) '' + '' (fl_mul (Fin d) (Fin w))
                   f s2 s3 (fl_add (Fin d) s3))))
   \<and> (ci_match wd ''tailwind'' \<longrightarrow>
      (\<exists>f s2 s3.
         calculate_angle_factor (Fin a) = Inr f
         \<and> fl_div (Fin 225) f = Inr s2
         \<and> fl_div (fl_mul (Fin d) (Fin w)) s2 = Inr s3
         \<and> calculate_steps F (Fin d) (Fin w) (Fin a) wd =
             Inr (trace_dict F (Fin d) (Fin w) (Fin 225) '' - '' (fl_mul (Fin d) (Fin w))
                   f s2 s3 (fl_sub (Fin d) s3))))"
proof (cases rule: calculate_steps_cases
    [where F = F and distance = "Fin d" and wind = "Fin w" and angle = "Fin a" and wd = wd])
  case (head f s2 s3)
  then have "\<not> ci_match wd ''tailwind''" using not_both [of wd] by simp
  with head show ?thesis by blast
next
  case (tail f s2 s3)
  then have "\<not> ci_match wd ''headwind''" using not_both [of wd] by simp
  with tail show ?thesis by blast
next
  case invalid
  then show ?thesis by (simp add: valid_direction_def)
qed

theorem calculate_steps_trace_witness:
  "ci_match ''HeadWind'' ''headwind''
   \<and> (\<exists>f s2 s3.
         calculate_angle_factor (Fin 0) = Inr f
         \<and> fl_div (Fin 180) f = Inr s2
         \<and> fl_div (fl_mul (Fin 103) (Fin 15)) s2 = Inr s3
         \<and> calculate_steps \<lparr>fmt_str = (\<lambda>x. []), fmt_4f = (\<lambda>x. [])\<rparr> (Fin 103) (Fin 15) (Fin 0)
               ''HeadWind'' =
             Inr (trace_dict \<lparr>fmt_str = (\<lambda>x. []), fmt_4f = (\<lambda>x. [])\<rparr> (Fin 103) (Fin 15)
                   (Fin 180) '' + '' (fl_mul (Fin 103) (Fin 15)) f s2 s3
                   (fl_add (Fin 103) s3)))
   \<and> ci_match ''TAILWIND'' ''tailwind''
   \<and> (\<exists>f s2 s3.
         calculate_angle_factor (Fin 0) = Inr f
         \<and> fl_div (Fin 225) f = Inr s2
         \<and> fl_div (fl_mul (Fin 103) (Fin 15)) s2 = Inr s3
         \<and> calculate_steps \<lparr>fmt_str = (\<lambda>x. []), fmt_4f = (\<lambda>x. [])\<rparr> (Fin 103) (Fin 15) (Fin 0)
               ''TAILWIND'' =
             Inr (trace_dict \<lparr>fmt_str = (\<lambda>x. []), fmt_4f = (\<lambda>x. [])\<rparr> (Fin 103) (Fin 15)
                   (Fin 225) '' - '' (fl_mul (Fin 103) (Fin 15)) f s2 s3
                   (fl_sub (Fin 103) s3)))"
proof -
  have h: "ci_match ''HeadWind'' ''headwind''"
    by (simp add: lower_literals flip: lower_headwind)
  have t: "ci_match ''TAILWIND'' ''tailwind''"
    by (simp add: lower_literals flip: lower_tailwind)
  show ?thesis
    using h t
      calculate_steps_trace [of "''HeadWind''" 0 103 15 "\<lparr>fmt_str = (\<lambda>x. []), fmt_4f = (\<lambda>x. [])\<rparr>"]
      calculate_steps_trace [of "''TAILWIND''" 0 103 15 "\<lparr>fmt_str = (\<lambda>x. []), fmt_4f = (\<lambda>x. [])\<rparr>"]
    by blast
qed

text \<open>
  Claim C3: \<^verbatim>\<open>calculate_steps\<close> returns the tagged failure value exactly when the
  direction matches neither \<^verbatim>\<open>headwind\<close> nor \<^verbatim>\<open>tailwind\<close> case-insensitively; the
  failure value is the dictionary with the single key \<^verbatim>\<open>error\<close> and the message of the
  source, and has none of the keys of the trace.
\<close>

theorem invalid_direction_failure:
  "is_failure (calculate_steps F distance wind angle wd) = (\<not> valid_direction wd)
   \<and> (\<not> valid_direction wd \<longrightarrow>
        calculate_steps F distance wind angle wd =
          Inr [(''error'', PStr ''Invalid wind direction. Please use 'headwind' or 'tailwind'.'')])
   \<and> no_trace_fields
        [(''error'', PStr ''Invalid wind direction. Please use 'headwind' or 'tailwind'.'')]"
proof (cases rule: calculate_steps_cases
    [where F = F and distance = distance and wind = wind and angle = angle and wd = wd])
  case (head f s2 s3)
  then show ?thesis
    by (simp add: trace_dict_no_error valid_direction_def no_trace_fields_def trace_keys_def)
next
  case (tail f s2 s3)
  then show ?thesis
    by (simp add: trace_dict_no_error valid_direction_def no_trace_fields_def trace_keys_def)
next
  case invalid
  then show ?thesis
    by (simp add: no_trace_fields_def trace_keys_def)
qed

theorem invalid_direction_failure_witness:
  "\<not> valid_direction ''bogus''
   \<and> is_failure (calculate_steps \<lparr>fmt_str = (\<lambda>x. []), fmt_4f = (\<lambda>x. [])\<rparr> (Fin 103) (Fin 15) (Fin 0)
        ''bogus'')
   \<and> calculate_steps \<lparr>fmt_str = (\<lambda>x. []), fmt_4f = (\<lambda>x. [])\<rparr> (Fin 103) (Fin 15) (Fin 0) ''bogus'' =
        Inr [(''error'', PStr ''Invalid wind direction. Please use 'headwind' or 'tailwind'.'')]
   \<and> valid_direction ''headwind''
   \<and> \<not> is_failure (calculate_steps \<lparr>fmt_str = (\<lambda>x. []), fmt_4f = (\<lambda>x. [])\<rparr> (Fin 103) (Fin 15)
        (Fin 0) ''headwind'')"
proof -
  have b: "\<not> valid_direction ''bogus''"
    by (simp add: valid_direction_def ci_match_def)
  have h: "valid_direction ''headwind''"
    by (simp add: valid_direction_def lower_literals flip: lower_headwind)
  show ?thesis
    using b h
      invalid_direction_failure [of "\<lparr>fmt_str = (\<lambda>x. []), fmt_4f = (\<lambda>x. [])\<rparr>" "Fin 103" "Fin 15"
        "Fin 0" "''bogus''"]
      invalid_direction_failure [of "\<lparr>fmt_str = (\<lambda>x. []), fmt_4f = (\<lambda>x. [])\<rparr>" "Fin 103" "Fin 15"
        "Fin 0" "''headwind''"]
    by simp
qed

text \<open>
  Claim C4: \<^verbatim>\<open>calculate_steps(103, 15, 0, "headwind")\<close> returns the trace with step 1
  1545, angle factor 1.0, divisor 180, step 2 180, step 3 the double \<^verbatim>\<open>1545 / 180\<close>
  (8.5833...) and adjusted distance 111.5833...; with \<^verbatim>\<open>"tailwind"\<close> the divisor and
  step 2 are 225, step 3 is the double \<^verbatim>\<open>1545 / 225\<close> (6.8666...) and the adjusted
  distance is 96.1333.... The doubles are within \<open>1 / 10 ^ 12\<close> of the exact quotients
  and sums.
\<close>

theorem worked_examples:
  "calculate_steps F (Fin 103) (Fin 15) (Fin 0) ''headwind'' =
     Inr (trace_dict F (Fin 103) (Fin 15) (Fin 180) '' + '' (Fin 1545) (Fin 1) (Fin 180)
           (Fin (4831987100199595 / 562949953421312))
           (Fin (7851979037824341 / 70368744177664)))
   \<and> fl_div (Fin 1545) (Fin 180) = Inr (Fin (4831987100199595 / 562949953421312))
   \<and> \<bar>4831987100199595 / 562949953421312 - 1545 / 180 :: rat\<bar> \<le> 1 / 10 ^ 12
   \<and> \<bar>7851979037824341 / 70368744177664 - (103 + 1545 / 180) :: rat\<bar> \<le> 1 / 10 ^ 12
   \<and> calculate_steps F (Fin 103) (Fin 15) (Fin 0) ''tailwind'' =
     Inr (trace_dict F (Fin 103) (Fin 15) (Fin 225) '' - '' (Fin 1545) (Fin 1) (Fin 225)
           (Fin (7731179360319351 / 1125899906842624))
           (Fin (6764781940279433 / 70368744177664)))
   \<and> fl_div (Fin 1545) (Fin 225) = Inr (Fin (7731179360319351 / 1125899906842624))
   \<and> \<bar>7731179360319351 / 1125899906842624 - 1545 / 225 :: rat\<bar> \<le> 1 / 10 ^ 12
   \<and> \<bar>6764781940279433 / 70368744177664 - (103 - 1545 / 225) :: rat\<bar> \<le> 1 / 10 ^ 12"
  using steps_example_headwind [OF lower_literals(1), of F]
    steps_example_tailwind [OF lower_literals(2), of F] step_3_head step_3_tail
  by simp

text \<open>
  Claim C8: the direction is treated case-insensitively. For every distance, wind and
  angle, a direction that matches \<^verbatim>\<open>headwind\<close> (or \<^verbatim>\<open>tailwind\<close>) up to case gives the
  same result as the lower-case string itself.
\<close>

theorem direction_case_insensitive:
  "(ci_match wd ''headwind'' \<longrightarrow>
      calculate_steps F distance wind angle wd = calculate_steps F distance wind angle ''headwind'')
   \<and> (ci_match wd ''tailwind'' \<longrightarrow>
      calculate_steps F distance wind angle wd = calculate_steps F distance wind angle ''tailwind'')"
  using calculate_steps_lower [of wd "''headwind''" F distance wind angle]
    calculate_steps_lower [of wd "''tailwind''" F distance wind angle]
  by (simp add: lower_literals flip: lower_headwind lower_tailwind)

theorem direction_case_insensitive_witness:
  "ci_match ''HeadWind'' ''headwind''
   \<and> calculate_steps \<lparr>fmt_str = (\<lambda>x. []), fmt_4f = (\<lambda>x. [])\<rparr> (Fin 103) (Fin 15) (Fin 0) ''HeadWind''
      = calculate_steps \<lparr>fmt_str = (\<lambda>x. []), fmt_4f = (\<lambda>x. [])\<rparr> (Fin 103) (Fin 15) (Fin 0)
          ''headwind''
   \<and> ci_match ''TAILWIND'' ''tailwind''
   \<and> calculate_steps \<lparr>fmt_str = (\<lambda>x. []), fmt_4f = (\<lambda>x. [])\<rparr> (Fin 103) (Fin 15) (Fin 0) ''TAILWIND''
      = calculate_steps \<lparr>fmt_str = (\<lambda>x. []), fmt_4f = (\<lambda>x. [])\<rparr> (Fin 103) (Fin 15) (Fin 0)
          ''tailwind''"
proof -
  have h: "ci_match ''HeadWind'' ''headwind''"
    by (simp add: lower_literals flip: lower_headwind)
  have t: "ci_match ''TAILWIND'' ''tailwind''"
    by (simp add: lower_literals flip: lower_tailwind)
  show ?thesis
    using h t
      direction_case_insensitive [of "''HeadWind''" "\<lparr>fmt_str = (\<lambda>x. []), fmt_4f = (\<lambda>x. [])\<rparr>"
        "Fin 103" "Fin 15" "Fin 0"]
      direction_case_insensitive [of "''TAILWIND''" "\<lparr>fmt_str = (\<lambda>x. []), fmt_4f = (\<lambda>x. [])\<rparr>"
        "Fin 103" "Fin 15" "Fin 0"]
    by blast
qed

text \<open>
  Claim C9: for finite distance, wind and angle and a valid direction, the angle factor
  is a finite double greater than zero, the quotient of either divisor by it is a finite
  double greater than zero, and \<^verbatim>\<open>calculate_steps\<close> returns a trace: no division is by
  zero and no exception leaves the function.
\<close>

theorem divisions_safe:
  assumes "valid_direction wd"
  shows "\<exists>f s180 s225 r.
      calculate_angle_factor (Fin a) = Inr (Fin f) \<and> 0 < f
      \<and> fl_div (Fin 180) (Fin f) = Inr (Fin s180) \<and> 0 < s180
      \<and> fl_div (Fin 225) (Fin f) = Inr (Fin s225) \<and> 0 < s225
      \<and> calculate_steps F (Fin d) (Fin w) (Fin a) wd = Inr r \<and> \<not> is_failure (Inr r)"
proof -
  from angle_factor_bounds [of a] obtain f
    where f: "calculate_angle_factor (Fin a) = Inr (Fin f)" "factor_min \<le> f" "f \<le> 1"
    by (rule returns_withinE)
  have fpos: "0 < f" using f(2) factor_min_pos by linarith
  from step_2_finite [OF f(2,3) rn_180] obtain s180
    where s180: "fl_div (Fin 180) (Fin f) = Inr (Fin s180)" "180 \<le> s180"
    by auto
  from step_2_finite [OF f(2,3) rn_225] obtain s225
    where s225: "fl_div (Fin 225) (Fin f) = Inr (Fin s225)" "225 \<le> s225"
    by auto
  obtain r where "calculate_steps F (Fin d) (Fin w) (Fin a) wd = Inr r" "\<not> is_failure (Inr r)"
  proof (cases rule: calculate_steps_cases
    [where F = F and distance = "Fin d" and wind = "Fin w" and angle = "Fin a" and wd = wd])
    case (head f s2 s3)
    then show ?thesis using that trace_dict_not_failure by metis
  next
    case (tail f s2 s3)
    then show ?thesis using that trace_dict_not_failure by metis
  next
    case invalid
    then show ?thesis using assms by simp
  qed
  with f(1) fpos s180 s225 show ?thesis
    by (intro exI [of _ f] exI [of _ s180] exI [of _ s225] exI [of _ r]) simp
qed

theorem divisions_safe_witness:
  "valid_direction ''HeadWind''
   \<and> (\<exists>f s180 s225 r.
      calculate_angle_factor (Fin 90) = Inr (Fin f) \<and> 0 < f
      \<and> fl_div (Fin 180) (Fin f) = Inr (Fin s180) \<and> 0 < s180
      \<and> fl_div (Fin 225) (Fin f) = Inr (Fin s225) \<and> 0 < s225
      \<and> calculate_steps \<lparr>fmt_str = (\<lambda>x. []), fmt_4f = (\<lambda>x. [])\<rparr> (Fin 103) (Fin 15) (Fin 90)
           ''HeadWind'' = Inr r
      \<and> \<not> is_failure (Inr r))"
proof -
  have h: "valid_direction ''HeadWind''"
    by (simp add: valid_direction_def lower_literals flip: lower_headwind)
  show ?thesis
    using h divisions_safe [OF h, of 90 "\<lparr>fmt_str = (\<lambda>x. []), fmt_4f = (\<lambda>x. [])\<rparr>" 103 15]
    by simp
qed

text \<open>
  Claim C10: whenever \<^verbatim>\<open>calculate_steps\<close> returns a dictionary that is not the failure
  value, the dictionary has the key \<^verbatim>\<open>step_4\<close>, and the \<^verbatim>\<open>result\<close> of that step is the
  value under \<^verbatim>\<open>adjusted_distance\<close>.
\<close>

theorem trace_consistent:
  assumes "calculate_steps F distance wind angle wd = Inr r" "\<not> is_failure (Inr r)"
  shows "\<exists>s4 v. map_of r ''step_4'' = Some (PDict s4)
      \<and> map_of s4 ''result'' = Some (PFloat v)
      \<and> map_of r ''adjusted_distance'' = Some (PFloat v)"
proof (cases rule: calculate_steps_cases
    [where F = F and distance = distance and wind = wind and angle = angle and wd = wd])
  case (head f s2 s3)
  with assms(1) show ?thesis by (auto simp add: trace_dict_step_4)
next
  case (tail f s2 s3)
  with assms(1) show ?thesis by (auto simp add: trace_dict_step_4)
next
  case invalid
  with assms(1) have "r = [(''error'', PStr ''Invalid wind direction. Please use 'headwind' or 'tailwind'.'')]"
    by simp
  with assms(2) show ?thesis by simp
qed

theorem trace_consistent_witness:
  "calculate_steps \<lparr>fmt_str = (\<lambda>x. []), fmt_4f = (\<lambda>x. [])\<rparr> (Fin 103) (Fin 15) (Fin 0) ''tailwind'' =
     Inr (trace_dict \<lparr>fmt_str = (\<lambda>x. []), fmt_4f = (\<lambda>x. [])\<rparr> (Fin 103) (Fin 15) (Fin 225) '' - ''
           (Fin 1545) (Fin 1) (Fin 225) (Fin (7731179360319351 / 1125899906842624))
           (Fin (6764781940279433 / 70368744177664)))
   \<and> \<not> is_failure (Inr (trace_dict \<lparr>fmt_str = (\<lambda>x. []), fmt_4f = (\<lambda>x. [])\<rparr> (Fin 103) (Fin 15)
           (Fin 225) '' - '' (Fin 1545) (Fin 1) (Fin 225)
           (Fin (7731179360319351 / 1125899906842624))
           (Fin (6764781940279433 / 70368744177664))))
   \<and> (\<exists>s4 v.
        map_of (trace_dict \<lparr>fmt_str = (\<lambda>x. []), fmt_4f = (\<lambda>x. [])\<rparr> (Fin 103) (Fin 15) (Fin 225)
           '' - '' (Fin 1545) (Fin 1) (Fin 225) (Fin (7731179360319351 / 1125899906842624))
           (Fin (6764781940279433 / 70368744177664))) ''step_4'' = Some (PDict s4)
        \<and> map_of s4 ''result'' = Some (PFloat v)
        \<and> map_of (trace_dict \<lparr>fmt_str = (\<lambda>x. []), fmt_4f = (\<lambda>x. [])\<rparr> (Fin 103) (Fin 15) (Fin 225)
           '' - '' (Fin 1545) (Fin 1) (Fin 225) (Fin (7731179360319351 / 1125899906842624))
           (Fin (6764781940279433 / 70368744177664))) ''adjusted_distance'' = Some (PFloat v))"
proof -
  note e = steps_example_tailwind [OF lower_literals(2),
      of "\<lparr>fmt_str = (\<lambda>x. []), fmt_4f = (\<lambda>x. [])\<rparr>"]
  note n = trace_dict_not_failure [of "\<lparr>fmt_str = (\<lambda>x. []), fmt_4f = (\<lambda>x. [])\<rparr>" "Fin 103" "Fin 15"
      "Fin 225" "'' - ''" "Fin 1545" "Fin 1" "Fin 225" "Fin (7731179360319351 / 1125899906842624)"
      "Fin (6764781940279433 / 70368744177664)"]
  show ?thesis
    using e n trace_consistent [OF e n] by blast
qed

end
